theory Spec2Isabelle
  imports Main "HOL-Library.Word"
begin

unbundle bit_operations_syntax

section \<open>The CRC engine of TestRoutine.ino\<close>

type_synonym u8 = "8 word"
type_synonym u16 = "16 word"
type_synonym u32 = "32 word"

text \<open>
  Program memory as \<open>pgm_read_word_far\<close> sees it: the 16-bit word found at a
  32-bit far address. Flash is read-only, so one function describes a whole run. The
  word at address \<open>a\<close> occupies the bytes at \<open>a\<close> and \<open>a + 1\<close>; nothing
  is assumed about how the words at overlapping addresses relate.
\<close>

type_synonym flash = "u32 \<Rightarrow> u16"

subsection \<open>runCRCWord\<close>

text \<open>
  The loop \<open>for (unsigned char k = 16; k; k--)\<close> of \<open>runCRCWord\<close>. The
  counter only takes the values 16 down to 0 and is kept as a natural number; the
  accumulator \<open>*crc\<close> is passed in and returned.
\<close>

fun runCRCWord_loop :: "nat \<Rightarrow> u16 \<Rightarrow> u32 \<Rightarrow> u32" where
  "runCRCWord_loop 0 wordValue crc = crc"
| "runCRCWord_loop (Suc j) wordValue crc =
     (let k = Suc j;
          (crc1, wordValue1) =
             (if k AND 7 = 0
              then (crc XOR ucast (wordValue AND 0xFF), drop_bit 8 wordValue)
              else (crc, wordValue));
          m = crc1 AND 1;
          crc2 = drop_bit 1 crc1;
          crc3 = (if m \<noteq> 0 then crc2 XOR 0xEDB88320 else crc2)
      in runCRCWord_loop j wordValue1 crc3)"

definition runCRCWord :: "u16 \<Rightarrow> u32 \<Rightarrow> u32" where
  "runCRCWord wordValue crc = runCRCWord_loop 16 wordValue crc"

subsection \<open>The reference CRC-32, after the specification\<close>

text \<open>
  The bit-reflected CRC-32 (CRC-32/ISO-HDLC) as the specification words it: polynomial
  0xEDB88320, least significant bit first, the register starting at all ones and
  inverted at the end. It is written here independently of the source, byte by byte,
  to compare \<open>runCRCWord\<close> with.
\<close>

definition crc32_bit :: "u32 \<Rightarrow> u32" where
  "crc32_bit crc = (if bit crc 0 then drop_bit 1 crc XOR 0xEDB88320 else drop_bit 1 crc)"

definition crc32_byte :: "u32 \<Rightarrow> u8 \<Rightarrow> u32" where
  "crc32_byte crc b = (crc32_bit ^^ 8) (crc XOR ucast b)"

definition crc32 :: "u8 list \<Rightarrow> u32" where
  "crc32 bs = NOT (foldl crc32_byte (NOT 0) bs)"

subsection \<open>calcCRCFlash\<close>

text \<open>
  The \<open>do ... while (--address_ctr)\<close> loop of \<open>calcCRCFlash\<close>. The body runs
  before the counter is tested, and the counter is an unsigned 32-bit value that wraps.
  Beside the accumulator the model returns the far addresses handed to
  \<open>pgm_read_word_far\<close>, in the order of the reads.
\<close>

lemma unat_pred_less: "x \<noteq> 0 \<Longrightarrow> unat (x - 1) < unat (x :: u32)"
  by (simp add: unat_minus_one unat_gt_0)

function calcCRCFlash_loop ::
  "flash \<Rightarrow> u32 \<Rightarrow> u32 \<Rightarrow> u32 \<Rightarrow> u32 list \<Rightarrow> u32 \<times> u32 list" where
  "calcCRCFlash_loop mem address address_ctr crc reads =
     (let crc1 = runCRCWord (mem address) crc;
          reads1 = reads @ [address];
          address1 = address + 2;
          address_ctr1 = address_ctr - 1
      in if address_ctr1 \<noteq> 0
         then calcCRCFlash_loop mem address1 address_ctr1 crc1 reads1
         else (crc1, reads1))"
  by pat_completeness auto
termination
proof (relation "measure (\<lambda>(mem, address, address_ctr, crc, reads). unat (address_ctr - 1))")
  show "wf (measure (\<lambda>(mem :: flash, address :: u32, address_ctr :: u32, crc :: u32,
      reads :: u32 list). unat (address_ctr - 1)))"
    by simp
next
  fix mem :: flash and address address_ctr crc :: u32 and reads :: "u32 list"
  fix x xa xb xc :: u32 and xr :: "u32 list"
  assume "xc = address_ctr - 1" and "xc \<noteq> 0"
  then have "unat (address_ctr - 1 - 1) < unat (address_ctr - 1)"
    by (intro unat_pred_less) simp
  then show "((mem, xb, xc, x, xr), (mem, address, address_ctr, crc, reads))
      \<in> measure (\<lambda>(mem, address, address_ctr, crc, reads). unat (address_ctr - 1))"
    unfolding \<open>xc = address_ctr - 1\<close> in_measure prod.case .
qed

declare calcCRCFlash_loop.simps [simp del]

text \<open>
  \<open>calcCRCFlash(start_addr, end_addr, start_crc)\<close>: the returned checksum, and the
  addresses read.
\<close>

definition calcCRCFlash :: "flash \<Rightarrow> u32 \<Rightarrow> u32 \<Rightarrow> u32 \<Rightarrow> u32 \<times> u32 list" where
  "calcCRCFlash mem start_addr end_addr start_crc =
     (let crc = NOT start_crc;
          address = start_addr;
          address_ctr = (end_addr - start_addr) div 2;
          (crc1, reads) = calcCRCFlash_loop mem address address_ctr crc []
      in (NOT crc1, reads))"

subsection \<open>calcCRCFlashBurst\<close>

text \<open>
  \<open>buff_len = sizeof(buff)/sizeof(buff[0])\<close>, for \<open>uint16_t buff[8]\<close>.
\<close>

definition buff_len :: nat where
  "buff_len = 8"

text \<open>
  The inner loop \<open>for (uint8_t k = 0; k < buff_len; k++)\<close> that refills the buffer
  with eight consecutive words and advances the address past them.
\<close>

function burst_fill ::
  "flash \<Rightarrow> nat \<Rightarrow> u16 list \<Rightarrow> u32 \<Rightarrow> u32 list \<Rightarrow> u16 list \<times> u32 \<times> u32 list" where
  "burst_fill mem k buff address reads =
     (if k < buff_len
      then burst_fill mem (k + 1) (buff[k := mem address]) (address + 2) (reads @ [address])
      else (buff, address, reads))"
  by pat_completeness auto
termination
  by (relation "measure (\<lambda>(mem, k, buff, address, reads). buff_len - k)") auto

declare burst_fill.simps [simp del]

text \<open>
  The \<open>do ... while (--address_ctr)\<close> loop of \<open>calcCRCFlashBurst\<close>. The pointer
  \<open>p\<close> into the buffer is kept as an index, \<open>buff_len\<close> standing for
  \<open>buff+buff_len\<close>.
\<close>

function calcCRCFlashBurst_loop ::
  "flash \<Rightarrow> u32 \<Rightarrow> u32 \<Rightarrow> u32 \<Rightarrow> u16 list \<Rightarrow> nat \<Rightarrow> u32 list \<Rightarrow> u32 \<times> u32 list" where
  "calcCRCFlashBurst_loop mem address address_ctr crc buff p reads =
     (let (buff1, address1, reads1, p1) =
            (if p = buff_len
             then let (b, a, r) = burst_fill mem 0 buff address reads in (b, a, r, 0)
             else (buff, address, reads, p));
          crc1 = runCRCWord (buff1 ! p1) crc;
          p2 = p1 + 1;
          address_ctr1 = address_ctr - 1
      in if address_ctr1 \<noteq> 0
         then calcCRCFlashBurst_loop mem address1 address_ctr1 crc1 buff1 p2 reads1
         else (crc1, reads1))"
  by pat_completeness auto
termination
proof (relation "measure (\<lambda>(mem, address, address_ctr, crc, buff, p, reads). unat (address_ctr - 1))")
  show "wf (measure (\<lambda>(mem :: flash, address :: u32, address_ctr :: u32, crc :: u32,
      buff :: u16 list, p :: nat, reads :: u32 list). unat (address_ctr - 1)))"
    by simp
next
  fix mem :: flash and address address_ctr crc :: u32 and buff :: "u16 list" and p :: nat
    and reads :: "u32 list"
  fix x :: "u16 list \<times> u32 \<times> u32 list \<times> nat" and xa :: "u16 list"
    and y :: "u32 \<times> u32 list \<times> nat" and xb :: u32 and ya :: "u32 list \<times> nat"
    and xc :: "u32 list" and yb :: nat and xd :: u32 and xe :: nat and xf :: u32
  assume "xf = address_ctr - 1" and "xf \<noteq> 0"
  then have "unat (address_ctr - 1 - 1) < unat (address_ctr - 1)"
    by (intro unat_pred_less) simp
  then show "((mem, xb, xf, xd, xa, xe, xc), (mem, address, address_ctr, crc, buff, p, reads))
      \<in> measure (\<lambda>(mem, address, address_ctr, crc, buff, p, reads). unat (address_ctr - 1))"
    unfolding \<open>xf = address_ctr - 1\<close> in_measure prod.case .
qed

declare calcCRCFlashBurst_loop.simps [simp del]

text \<open>
  \<open>calcCRCFlashBurst(start_addr, end_addr, start_crc)\<close>. The buffer is not
  initialised in the source; the loop fills it before the first word is taken from it,
  so the model may start from any content and starts from zeros.
\<close>

definition calcCRCFlashBurst :: "flash \<Rightarrow> u32 \<Rightarrow> u32 \<Rightarrow> u32 \<Rightarrow> u32 \<times> u32 list" where
  "calcCRCFlashBurst mem start_addr end_addr start_crc =
     (let crc = NOT start_crc;
          address = start_addr;
          address_ctr = (end_addr - start_addr) div 2;
          buff = replicate buff_len 0;
          p = buff_len;
          (crc1, reads) = calcCRCFlashBurst_loop mem address address_ctr crc buff p []
      in (NOT crc1, reads))"

subsection \<open>Vocabulary for the statements\<close>

text \<open>
  \<open>word_addresses start n\<close> are the addresses of \<open>n\<close> consecutive words from
  \<open>start\<close> on, in ascending order (modulo \<open>2 ^ 32\<close>, as the address variable
  wraps); \<open>crc_words\<close> feeds the words at a list of addresses to
  \<open>runCRCWord\<close> in order; \<open>iterations c\<close> is the number of passes a
  \<open>do ... while (--c)\<close> loop makes when it is entered with the counter \<open>c\<close>;
  \<open>prefetched p n\<close> is the number of words the burst loop fetches while it
  consumes \<open>n\<close> words, entered with the buffer pointer at \<open>p\<close>.
\<close>

definition word_addresses :: "u32 \<Rightarrow> nat \<Rightarrow> u32 list" where
  "word_addresses start n = map (\<lambda>i. start + 2 * of_nat i) [0..<n]"

definition crc_words :: "flash \<Rightarrow> u32 \<Rightarrow> u32 list \<Rightarrow> u32" where
  "crc_words mem crc addrs = foldl (\<lambda>c a. runCRCWord (mem a) c) crc addrs"

definition iterations :: "u32 \<Rightarrow> nat" where
  "iterations address_ctr = unat (address_ctr - 1) + 1"

definition prefetched :: "nat \<Rightarrow> nat \<Rightarrow> nat" where
  "prefetched p n = (n - (buff_len - p) + 7) div 8 * 8"

subsection \<open>The firmware-end scan of startLCDTest\<close>

text \<open>
  The loop \<open>do { if (pgm_read_word_far(end_address-2) != 0xFFFF) break;
  end_address -= 2; } while (end_address != 0x3E000);\<close>. Entered at an arbitrary
  address it need not stop, so not returning is the value \<open>None\<close>.
\<close>

partial_function (option) end_address_scan :: "flash \<Rightarrow> u32 \<Rightarrow> u32 option" where
  "end_address_scan mem end_address =
     (if mem (end_address - 2) \<noteq> 0xFFFF then Some end_address
      else let end_address1 = end_address - 2
           in if end_address1 \<noteq> 0x3E000 then end_address_scan mem end_address1
              else Some end_address1)"

text \<open>
  \<open>startLCDTest\<close> enters the loop with \<open>end_address = 0x40000\<close>.
\<close>

definition firmware_end :: "flash \<Rightarrow> u32 option" where
  "firmware_end mem = end_address_scan mem 0x40000"

text \<open>
  For the statement: the number of consecutive erased words directly below
  \<open>upper\<close>, counting at most \<open>n\<close> of them.
\<close>

fun erased_run :: "flash \<Rightarrow> u32 \<Rightarrow> nat \<Rightarrow> nat" where
  "erased_run mem upper 0 = 0"
| "erased_run mem upper (Suc n) =
     (if mem (upper - 2) = 0xFFFF then Suc (erased_run mem (upper - 2) n) else 0)"

section \<open>The test runner of TestRoutine.ino\<close>

subsection \<open>Data\<close>

text \<open>
  Modelled from the spec: \<open>TestResult.h\<close> is not among the sources. The
  specification gives the struct three fields: a short device name, the boolean outcome
  and a short status text. The character arrays are kept as strings of any length.
\<close>

record TestResult =
  device :: string
  success :: bool
  status :: string

text \<open>
  Modelled from the spec: the colour constants come from \<open>Phoenard.h\<close>, which is
  not among the sources; only their names matter here. The display is the sequence of
  calls made on it.
\<close>

datatype color_t = BLACK | YELLOW | GREEN | RED

datatype display_op =
    FillRect int int int int color_t
  | SetTextSize int
  | SetTextColor color_t
  | SetCursor int int
  | Print string
  | ShowMessage string

text \<open>
  The inputs of a run. Every call of \<open>isSelectPressed()\<close> or \<open>millis()\<close> is
  one sample of the hardware; the samples of a run are numbered from 0 in the order the
  program takes them. \<open>select_pressed hw n\<close> is what the button reads if sample
  \<open>n\<close> is a call of \<open>isSelectPressed()\<close>, and \<open>millis_at hw n\<close> is the
  millisecond counter (an \<open>unsigned long\<close>) if sample \<open>n\<close> is a call of
  \<open>millis()\<close>.
\<close>

record hardware =
  select_pressed :: "nat \<Rightarrow> bool"
  millis_at :: "nat \<Rightarrow> u32"

text \<open>
  The state a run changes: the globals \<open>testCnt\<close> and \<open>test_results\<close>, the
  text written to \<open>Serial\<close>, the calls made on the display, and the number of
  hardware samples taken so far.
\<close>

record world =
  testCnt :: int
  test_results :: "TestResult list"
  serial :: string
  lcd :: "display_op list"
  samples :: nat

text \<open>
  The state at start-up: \<open>int testCnt = 0\<close> and \<open>TestResult test_results[15]\<close>,
  a global array and therefore zero-initialised.
\<close>

definition initial_world :: world where
  "initial_world =
     \<lparr>testCnt = 0,
      test_results = replicate 15 \<lparr>device = [], success = False, status = []\<rparr>,
      serial = [], lcd = [], samples = 0\<rparr>"

subsection \<open>Primitives\<close>

text \<open>
  Modelled from the spec: \<open>isSelectPressed\<close>, \<open>millis\<close> and
  \<open>showMessage\<close> are declared outside the sources. The first two sample the
  hardware; \<open>showMessage\<close> puts a message on the display, the empty message
  clearing it. \<open>Serial.println\<close> ends the line with carriage return and line feed;
  \<open>Serial.flush\<close> changes nothing that is observed here.
\<close>

definition isSelectPressed :: "hardware \<Rightarrow> world \<Rightarrow> bool \<times> world" where
  "isSelectPressed hw w = (select_pressed hw (samples w), w\<lparr>samples := samples w + 1\<rparr>)"

definition millis :: "hardware \<Rightarrow> world \<Rightarrow> u32 \<times> world" where
  "millis hw w = (millis_at hw (samples w), w\<lparr>samples := samples w + 1\<rparr>)"

definition Serial_print :: "string \<Rightarrow> world \<Rightarrow> world" where
  "Serial_print s w = w\<lparr>serial := serial w @ s\<rparr>"

definition Serial_println :: "string \<Rightarrow> world \<Rightarrow> world" where
  "Serial_println s w = w\<lparr>serial := serial w @ s @ [CHR 0x0D, CHR 0x0A]\<rparr>"

definition showMessage :: "string \<Rightarrow> world \<Rightarrow> world" where
  "showMessage s w = w\<lparr>lcd := lcd w @ [ShowMessage s]\<rparr>"

text \<open>
  \<open>showStatus(index, color, what, text)\<close>, as the source draws it.
\<close>

definition showStatus :: "int \<Rightarrow> color_t \<Rightarrow> string \<Rightarrow> string \<Rightarrow> world \<Rightarrow> world" where
  "showStatus index color what txt w =
     (let wd = 310; h = 13; x = 5; y = 5 + index * (h + 3)
      in w\<lparr>lcd := lcd w @
           [FillRect x y wd h color, SetTextSize 1, SetTextColor BLACK,
            SetCursor (x + 3) (y + 3), Print what, Print '': '', Print txt]\<rparr>)"

subsection \<open>doTest\<close>

text \<open>
  The message of the entry check, two lines separated by a line feed.
\<close>

definition release_message :: string where
  "release_message =
     ''Please release the SELECT button'' @ [CHR 0x0A] @
     ''Indicates hardware problem if not pressed''"

text \<open>
  \<open>while(isSelectPressed() && (millis() - sel_start) < 1000);\<close> The right operand
  is only evaluated when the button reads pressed. \<open>sel_start\<close> is a \<open>long\<close>
  that is converted back to \<open>unsigned long\<close> in the subtraction, so the difference
  and the comparison are unsigned 32-bit. A loop that never exits is \<open>None\<close>.
\<close>

partial_function (option) wait_select_timeout :: "hardware \<Rightarrow> u32 \<Rightarrow> world \<Rightarrow> world option" where
  "wait_select_timeout hw sel_start w =
     (let (pressed, w1) = isSelectPressed hw w
      in if pressed
         then let (now, w2) = millis hw w1
              in if now - sel_start < 1000 then wait_select_timeout hw sel_start w2 else Some w2
         else Some w1)"

text \<open>
  \<open>while (isSelectPressed());\<close>
\<close>

partial_function (option) wait_select_released :: "hardware \<Rightarrow> world \<Rightarrow> world option" where
  "wait_select_released hw w =
     (let (pressed, w1) = isSelectPressed hw w
      in if pressed then wait_select_released hw w1 else Some w1)"

text \<open>
  The entry check of \<open>doTest\<close>, from \<open>long sel_start = millis();\<close> to the
  end of the \<open>if (isSelectPressed())\<close> block.
\<close>

definition doTest_interlock :: "hardware \<Rightarrow> world \<Rightarrow> world option" where
  "doTest_interlock hw w =
     (let (sel_start, w1) = millis hw w
      in case wait_select_timeout hw sel_start w1 of
           None \<Rightarrow> None
         | Some w2 \<Rightarrow>
             (let (pressed, w3) = isSelectPressed hw w2
              in if pressed
                 then (case wait_select_released hw (showMessage release_message w3) of
                         None \<Rightarrow> None
                       | Some w4 \<Rightarrow> Some (showMessage [] w4))
                 else Some w3))"

text \<open>
  \<open>test_results[testCnt] = result\<close> has no bounds check in the source. An index
  outside the array is undefined behaviour in C and is reported as a fault here.
\<close>

datatype fault = BufferOverrun

text \<open>
  \<open>doTest(what, testFunc)\<close>. The probe is a function of no argument; what it
  returns is all that is observed of it. \<open>strcpy(result.device, what)\<close> replaces
  the device name. The result is \<open>None\<close> when the entry check never returns.
\<close>

definition doTest ::
  "hardware \<Rightarrow> string \<Rightarrow> (unit \<Rightarrow> TestResult) \<Rightarrow> world \<Rightarrow> (fault + TestResult \<times> world) option" where
  "doTest hw what testFunc w =
     (case doTest_interlock hw w of
        None \<Rightarrow> None
      | Some w1 \<Rightarrow>
          (let w2 = Serial_print '' Testing...'' (Serial_print what w1);
               w3 = showStatus (testCnt w2) YELLOW what ''Testing...'' (showMessage [] w2);
               result = (testFunc ())\<lparr>device := what\<rparr>
           in if 0 \<le> testCnt w3 \<and> testCnt w3 < int (length (test_results w3))
              then let w4 = w3\<lparr>test_results := (test_results w3)[nat (testCnt w3) := result]\<rparr>;
                       w5 = showStatus (testCnt w4) (if success result then GREEN else RED)
                              what (status result) w4;
                       w6 = Serial_print (if success result then ''  SUCCESS'' else ''  FAILURE'') w5;
                       w7 = Serial_println (status result) (Serial_print '' - '' w6);
                       w8 = w7\<lparr>testCnt := testCnt w7 + 1\<rparr>
                   in Some (Inr (result, w8))
              else Some (Inl BufferOverrun)))"

subsection \<open>setup\<close>

text \<open>
  Modelled from the spec: the probe functions live in \<open>tests.h\<close>, which is not
  among the sources. They are named here and their results are a parameter of a run.
\<close>

datatype probe =
    testScreen | testConnector | testFlash | testBMP180 | testMPU6050 | testHMC5883L
  | testRAM | testSD | testMP3 | testMIDI | testWiFi | testBluetooth | testSIM

type_synonym tests_h = "probe \<Rightarrow> unit \<Rightarrow> TestResult"

text \<open>
  The thirteen calls \<open>doTest("LCD Screen", testScreen); ... doTest("SIM908", testSIM);\<close>
  of \<open>setup\<close>, in their order.
\<close>

definition registered_tests :: "(string \<times> probe) list" where
  "registered_tests =
     [(''LCD Screen'', testScreen), (''Connector'', testConnector), (''Flash'', testFlash),
      (''BMP180'', testBMP180), (''MPU6050'', testMPU6050), (''HMC5883L'', testHMC5883L),
      (''SRAM'', testRAM), (''Micro-SD'', testSD), (''MP3'', testMP3), (''MIDI'', testMIDI),
      (''WiFi'', testWiFi), (''Bluetooth'', testBluetooth), (''SIM908'', testSIM)]"

fun run_tests ::
  "hardware \<Rightarrow> tests_h \<Rightarrow> (string \<times> probe) list \<Rightarrow> world \<Rightarrow> (fault + world) option" where
  "run_tests hw tests [] w = Some (Inr w)"
| "run_tests hw tests ((what, testFunc) # rest) w =
     (case doTest hw what (tests testFunc) w of
        None \<Rightarrow> None
      | Some (Inl e) \<Rightarrow> Some (Inl e)
      | Some (Inr (result, w1)) \<Rightarrow> run_tests hw tests rest w1)"

definition setup_tests :: "hardware \<Rightarrow> tests_h \<Rightarrow> world \<Rightarrow> (fault + world) option" where
  "setup_tests hw tests w = run_tests hw tests registered_tests w"

text \<open>
  The loop \<open>for (int i = 0; i < testCnt; i++)\<close> at the end of \<open>setup\<close>.
  Reading \<open>test_results[i]\<close> outside the array is a fault.
\<close>

lemma testCnt_Serial_print: "testCnt (Serial_print s w) = testCnt w"
  by (simp add: Serial_print_def)

lemma testCnt_Serial_println: "testCnt (Serial_println s w) = testCnt w"
  by (simp add: Serial_println_def)

function report_loop :: "int \<Rightarrow> bool \<Rightarrow> world \<Rightarrow> fault + bool \<times> world" where
  "report_loop i test_success w =
     (if i < testCnt w
      then if 0 \<le> i \<and> i < int (length (test_results w))
           then let r = test_results w ! nat i
                in if \<not> success r
                   then let w1 = (if test_success
                                  then Serial_println ''Please check the following components:''
                                         (Serial_println ''Testing completed with errors.'' w)
                                  else w);
                            w2 = Serial_println '')'' (Serial_print (status r)
                                   (Serial_print '' ('' (Serial_print (device r)
                                     (Serial_print ''- '' w1))))
                        in report_loop (i + 1) False w2
                   else report_loop (i + 1) test_success w
           else Inl BufferOverrun
      else Inr (test_success, w))"
  by pat_completeness auto
termination
  by (relation "measure (\<lambda>(i, test_success, w). nat (testCnt w - i))")
    (auto simp: testCnt_Serial_print testCnt_Serial_println)

declare report_loop.simps [simp del]

text \<open>
  The end of \<open>setup\<close>: the loop, then the line printed when no test failed.
\<close>

definition report :: "world \<Rightarrow> fault + world" where
  "report w =
     (case report_loop 0 True w of
        Inl e \<Rightarrow> Inl e
      | Inr (test_success, w1) \<Rightarrow>
          if test_success then Inr (Serial_println ''Testing completed: no problems found.'' w1)
          else Inr w1)"

text \<open>
  \<open>setup\<close> from \<open>Serial.println(F("Testing started."))\<close> on. The calls on the
  SIM module between the tests are not observed here.
\<close>

definition setup_run :: "hardware \<Rightarrow> tests_h \<Rightarrow> world \<Rightarrow> (fault + world) option" where
  "setup_run hw tests w =
     (case setup_tests hw tests (Serial_println ''Testing started.'' w) of
        None \<Rightarrow> None
      | Some (Inl e) \<Rightarrow> Some (Inl e)
      | Some (Inr w1) \<Rightarrow> Some (report (Serial_println [] w1)))"

subsection \<open>Vocabulary for the report\<close>

text \<open>
  The report as the specification words it: one line \<open>- <device> (<status>)\<close> per
  failing result, in order, after the two header lines when some result failed, and the
  single line of a clean run otherwise. \<open>report_lines\<close> is the text the loop has
  still to print for the remaining results.
\<close>

definition failure_line :: "TestResult \<Rightarrow> string" where
  "failure_line r = ''- '' @ device r @ '' ('' @ status r @ '')'' @ [CHR 0x0D, CHR 0x0A]"

definition report_text :: "TestResult list \<Rightarrow> string" where
  "report_text rs =
     (if \<exists>r \<in> set rs. \<not> success r
      then ''Testing completed with errors.'' @ [CHR 0x0D, CHR 0x0A] @
           ''Please check the following components:'' @ [CHR 0x0D, CHR 0x0A] @
           concat (map failure_line (filter (\<lambda>r. \<not> success r) rs))
      else ''Testing completed: no problems found.'' @ [CHR 0x0D, CHR 0x0A])"

fun report_lines :: "bool \<Rightarrow> TestResult list \<Rightarrow> string" where
  "report_lines test_success [] = []"
| "report_lines test_success (r # rs) =
     (if \<not> success r
      then (if test_success
            then ''Testing completed with errors.'' @ [CHR 0x0D, CHR 0x0A] @
                 ''Please check the following components:'' @ [CHR 0x0D, CHR 0x0A]
            else []) @ failure_line r @ report_lines False rs
      else report_lines test_success rs)"

section \<open>Properties of the CRC engine\<close>

subsection \<open>runCRCWord is two byte steps of CRC-32\<close>

lemma crc32_byte_unfold:
  "crc32_byte c b =
     crc32_bit (crc32_bit (crc32_bit (crc32_bit
       (crc32_bit (crc32_bit (crc32_bit (crc32_bit (c XOR ucast b))))))))"
  by (simp add: crc32_byte_def eval_nat_numeral)

lemma crc_bit_step:
  "(if c AND 1 \<noteq> 0 then drop_bit 1 c XOR 0xEDB88320 else drop_bit 1 c) = crc32_bit (c::u32)"
proof -
  have "(c AND 1 \<noteq> 0) = bit c 0"
    unfolding bit_0 odd_iff_mod_2_eq_one and_one_eq by (simp add: mod_2_eq_odd)
  then show ?thesis
    by (simp only: crc32_bit_def)
qed

lemma low_byte_ucast: "(ucast (w AND 0xFF :: u16) :: u32) = ucast (ucast w :: u8)"
proof -
  have m: "(0xFF :: u16) = mask 8"
    by (simp add: mask_eq_exp_minus_1)
  show ?thesis
    unfolding m by (rule bit_word_eqI) (auto simp: bit_simps)
qed

lemma runCRCWord_loop_numeral:
  "runCRCWord_loop (numeral n) w c =
     (if (numeral n :: nat) AND 7 = 0
      then runCRCWord_loop (pred_numeral n) (drop_bit 8 w) (crc32_bit (c XOR ucast (ucast w :: u8)))
      else runCRCWord_loop (pred_numeral n) w (crc32_bit c))"
  by (simp only: numeral_eq_Suc runCRCWord_loop.simps Let_def crc_bit_step low_byte_ucast
      split: prod.splits if_splits) simp

lemma runCRCWord_loop_one: "runCRCWord_loop 1 w c = crc32_bit c"
proof -
  have "runCRCWord_loop (Suc 0) w c = crc32_bit c"
    by (simp only: runCRCWord_loop.simps Let_def crc_bit_step split: prod.splits if_splits) simp
  then show ?thesis by simp
qed

lemma runCRCWord_bytes:
  "runCRCWord w crc = crc32_byte (crc32_byte crc (ucast w)) (ucast (drop_bit 8 w))"
  unfolding runCRCWord_def crc32_byte_unfold
  by (simp add: runCRCWord_loop_numeral runCRCWord_loop_one
      del: runCRCWord_loop.simps One_nat_def)

lemma crc32_bit_numeral:
  "crc32_bit (numeral n) =
     (if bit (numeral n :: u32) 0 then drop_bit 1 (numeral n) XOR 0xEDB88320
      else drop_bit 1 (numeral n))"
  by (simp add: crc32_bit_def)

lemma all_ones: "(NOT 0 :: u32) = 0xFFFFFFFF"
  by simp

lemma crc32_example_register:
  "foldl crc32_byte 0xFFFFFFFF [0x01, 0x02, 0x03, 0x04] = 0x49C30432"
  unfolding foldl.simps crc32_byte_unfold
  by (simp add: crc32_bit_numeral bit_0)

lemma crc32_example: "crc32 [0x01, 0x02, 0x03, 0x04] = 0xB63CFBCD"
  unfolding crc32_def all_ones crc32_example_register by simp

lemma example_bytes:
  "(ucast (0x0201 :: u16) :: u8) = 1" "(ucast (drop_bit 8 (0x0201 :: u16)) :: u8) = 2"
  "(ucast (0x0403 :: u16) :: u8) = 3" "(ucast (drop_bit 8 (0x0403 :: u16)) :: u8) = 4"
  by simp_all

text \<open>
  C2. \<open>runCRCWord\<close> is the bit-reflected CRC-32 (polynomial 0xEDB88320, least
  significant bit first) applied to the low byte and then the high byte of the word.
  Feeding the words 0x0201 and 0x0403 to an accumulator that starts at the inverted
  seed 0 and inverting the result gives the CRC-32/ISO-HDLC value of the bytes
  01 02 03 04, which is 0xB63CFBCD.
\<close>

theorem runCRCWord_is_crc32:
  "runCRCWord w crc = crc32_byte (crc32_byte crc (ucast w)) (ucast (drop_bit 8 w))
   \<and> NOT (runCRCWord 0x0403 (runCRCWord 0x0201 (NOT 0))) = crc32 [0x01, 0x02, 0x03, 0x04]
   \<and> crc32 [0x01, 0x02, 0x03, 0x04] = 0xB63CFBCD"
proof -
  have "NOT (runCRCWord 0x0403 (runCRCWord 0x0201 (NOT 0))) = crc32 [0x01, 0x02, 0x03, 0x04]"
    unfolding runCRCWord_bytes example_bytes crc32_def foldl.simps ..
  then show ?thesis
    using runCRCWord_bytes crc32_example by simp
qed

subsection \<open>The two region loops\<close>

lemma word_addresses_0: "word_addresses a 0 = []"
  by (simp add: word_addresses_def)

lemma word_addresses_Suc: "word_addresses a (Suc n) = a # word_addresses (a + 2) n"
  unfolding word_addresses_def map_upt_Suc
  by (simp add: algebra_simps)

lemma word_addresses_add:
  "word_addresses a (m + n) = word_addresses a m @ word_addresses (a + 2 * of_nat m) n"
proof (induction m arbitrary: a)
  case 0
  show ?case by (simp add: word_addresses_0)
next
  case (Suc m)
  show ?case
    by (simp add: word_addresses_Suc Suc.IH algebra_simps)
qed

lemma length_word_addresses: "length (word_addresses a n) = n"
  by (simp add: word_addresses_def)

lemma nth_word_addresses: "i < n \<Longrightarrow> word_addresses a n ! i = a + 2 * of_nat i"
  by (simp add: word_addresses_def)

lemma crc_words_Cons: "crc_words mem c (a # as) = crc_words mem (runCRCWord (mem a) c) as"
  by (simp add: crc_words_def)

lemma crc_words_Nil: "crc_words mem c [] = c"
  by (simp add: crc_words_def)

lemma crc_words_append:
  "crc_words mem c (as @ bs) = crc_words mem (crc_words mem c as) bs"
  by (simp add: crc_words_def)

lemma iterations_last: "address_ctr - 1 = 0 \<Longrightarrow> iterations address_ctr = 1"
  by (simp add: iterations_def)

lemma iterations_more:
  assumes "address_ctr - 1 \<noteq> 0"
  shows "iterations address_ctr = Suc (iterations (address_ctr - 1))"
proof -
  have "unat (address_ctr - 1 - 1) = unat (address_ctr - 1) - 1"
    using assms by (rule unat_minus_one)
  moreover have "0 < unat (address_ctr - 1)"
    using assms unat_gt_0 by blast
  ultimately show ?thesis
    unfolding iterations_def by linarith
qed

lemma iterations_nonzero: "address_ctr \<noteq> 0 \<Longrightarrow> iterations address_ctr = unat address_ctr"
  by (simp add: iterations_def unat_minus_one unat_gt_0)

lemma iterations_zero: "iterations 0 = 2 ^ 32"
  by (simp add: iterations_def unsigned_minus_1_eq_mask mask_eq_exp_minus_1)

lemma calcCRCFlash_loop_eq:
  "calcCRCFlash_loop mem address address_ctr crc reads =
     (crc_words mem crc (word_addresses address (iterations address_ctr)),
      reads @ word_addresses address (iterations address_ctr))"
proof (induction mem address address_ctr crc reads rule: calcCRCFlash_loop.induct)
  case (1 mem address address_ctr crc reads)
  show ?case
  proof (cases "address_ctr - 1 = 0")
    case True
    then show ?thesis
      by (subst calcCRCFlash_loop.simps)
        (simp add: iterations_last word_addresses_Suc word_addresses_0 crc_words_Cons crc_words_Nil)
  next
    case False
    have "calcCRCFlash_loop mem address address_ctr crc reads =
        calcCRCFlash_loop mem (address + 2) (address_ctr - 1) (runCRCWord (mem address) crc)
          (reads @ [address])"
      using False by (subst calcCRCFlash_loop.simps) (simp add: Let_def)
    also have "\<dots> = (crc_words mem (runCRCWord (mem address) crc)
          (word_addresses (address + 2) (iterations (address_ctr - 1))),
        (reads @ [address]) @ word_addresses (address + 2) (iterations (address_ctr - 1)))"
      using False by (intro "1.IH") simp_all
    finally show ?thesis
      by (simp add: iterations_more [OF False] word_addresses_Suc crc_words_Cons)
  qed
qed

lemma burst_fill_eq:
  "k \<le> buff_len \<Longrightarrow> length buff = buff_len \<Longrightarrow>
   burst_fill mem k buff address reads =
     (take k buff @ map mem (word_addresses address (buff_len - k)),
      address + 2 * of_nat (buff_len - k),
      reads @ word_addresses address (buff_len - k))"
proof (induction mem k buff address reads rule: burst_fill.induct)
  case (1 mem k buff address reads)
  show ?case
  proof (cases "k < buff_len")
    case False
    with "1.prems" have "k = buff_len" by simp
    then show ?thesis
      using "1.prems" by (subst burst_fill.simps) (simp add: word_addresses_0)
  next
    case True
    then obtain d where d: "buff_len - k = Suc d" "buff_len - (k + 1) = d"
      by (cases "buff_len - k") auto
    have "k + 1 \<le> buff_len" "length (buff[k := mem address]) = buff_len"
      using True "1.prems" by simp_all
    from "1.IH" [OF True this]
    have ih: "burst_fill mem (Suc k) (buff[k := mem address]) (address + 2) (reads @ [address]) =
       (take (Suc k) (buff[k := mem address]) @ map mem (word_addresses (address + 2) d),
        address + 2 + 2 * of_nat d,
        (reads @ [address]) @ word_addresses (address + 2) d)"
      unfolding d by simp
    have tk: "take (Suc k) (buff[k := mem address]) = take k buff @ [mem address]"
      using True "1.prems" by (simp add: take_Suc_conv_app_nth)
    show ?thesis
      using True by (subst burst_fill.simps) (simp add: ih tk d word_addresses_Suc algebra_simps)
  qed
qed

lemma burst_fill_full:
  assumes "length buff = buff_len"
  shows "burst_fill mem 0 buff address reads =
     (map mem (word_addresses address 8), address + 16, reads @ word_addresses address 8)"
  using burst_fill_eq [of 0 buff mem address reads] assms by (simp add: buff_len_def)

lemma prefetched_0: "prefetched p 0 = 0"
  by (simp add: prefetched_def)

lemma prefetched_buffered: "p < buff_len \<Longrightarrow> prefetched p (Suc n) = prefetched (Suc p) n"
  by (simp add: prefetched_def Suc_diff_Suc)

lemma prefetched_refill: "prefetched buff_len (Suc n) = 8 + prefetched (Suc 0) n"
proof -
  have "(8 + n) div 8 = Suc (n div 8)"
    by simp
  then show ?thesis
    unfolding prefetched_def buff_len_def by (cases "7 \<le> n") (simp_all add: add.commute)
qed

lemma burst_step_refill:
  assumes "length buff = buff_len"
  shows "calcCRCFlashBurst_loop mem address address_ctr crc buff buff_len reads =
     (if address_ctr - 1 \<noteq> 0
      then calcCRCFlashBurst_loop mem (address + 16) (address_ctr - 1)
             (runCRCWord (mem address) crc) (map mem (word_addresses address 8)) (Suc 0)
             (reads @ word_addresses address 8)
      else (runCRCWord (mem address) crc, reads @ word_addresses address 8))"
proof -
  have "map mem (word_addresses address 8) ! 0 = mem address"
    by (simp add: word_addresses_def)
  then show ?thesis
    by (subst calcCRCFlashBurst_loop.simps) (simp add: burst_fill_full [OF assms] Let_def)
qed

lemma burst_step_buffered:
  assumes "p \<noteq> buff_len"
  shows "calcCRCFlashBurst_loop mem address address_ctr crc buff p reads =
     (if address_ctr - 1 \<noteq> 0
      then calcCRCFlashBurst_loop mem address (address_ctr - 1)
             (runCRCWord (buff ! p) crc) buff (Suc p) reads
      else (runCRCWord (buff ! p) crc, reads))"
  using assms by (subst calcCRCFlashBurst_loop.simps) (simp add: Let_def)

lemma calcCRCFlashBurst_loop_eq:
  assumes "p \<le> buff_len" "length buff = buff_len"
    "\<forall>j. p \<le> j \<and> j < buff_len \<longrightarrow> buff ! j = mem (address - 2 * of_nat (buff_len - j))"
  shows "calcCRCFlashBurst_loop mem address address_ctr crc buff p reads =
     (crc_words mem crc
        (word_addresses (address - 2 * of_nat (buff_len - p)) (iterations address_ctr)),
      reads @ word_addresses address (prefetched p (iterations address_ctr)))"
  using assms
proof (induction "unat (address_ctr - 1)" arbitrary: address address_ctr crc buff p reads)
  case 0
  then have last: "address_ctr - 1 = 0"
    by (simp add: unat_0_iff)
  have it: "iterations address_ctr = Suc 0"
    using iterations_last [OF last] by simp
  show ?case
  proof (cases "p = buff_len")
    case True
    show ?thesis
      unfolding True burst_step_refill [OF "0.prems"(2)] it
      using last
      by (simp add: prefetched_refill prefetched_0 word_addresses_Suc word_addresses_0
          crc_words_Cons crc_words_Nil)
  next
    case False
    then have lt: "p < buff_len"
      using "0.prems"(1) by simp
    have "buff ! p = mem (address - 2 * of_nat (buff_len - p))"
      using "0.prems"(3) lt by simp
    then show ?thesis
      unfolding burst_step_buffered [OF False] it
      using last
      by (simp add: prefetched_buffered [OF lt] prefetched_0 word_addresses_Suc word_addresses_0
          crc_words_Cons crc_words_Nil)
  qed
next
  case (Suc n)
  then have more: "address_ctr - 1 \<noteq> 0"
    by (auto simp: unat_0_iff [symmetric])
  have it: "iterations address_ctr = Suc (iterations (address_ctr - 1))"
    by (rule iterations_more [OF more])
  have n: "n = unat (address_ctr - 1 - 1)"
    using Suc.hyps(2) unat_minus_one [OF more] by simp
  show ?case
  proof (cases "p = buff_len")
    case True
    let ?buff1 = "map mem (word_addresses address 8)"
    have inv: "\<forall>j. Suc 0 \<le> j \<and> j < buff_len \<longrightarrow>
        ?buff1 ! j = mem (address + 16 - 2 * of_nat (buff_len - j))"
      by (auto simp: buff_len_def nth_word_addresses length_word_addresses of_nat_diff
          algebra_simps)
    have ih: "calcCRCFlashBurst_loop mem (address + 16) (address_ctr - 1)
          (runCRCWord (mem address) crc) ?buff1 (Suc 0) (reads @ word_addresses address 8) =
        (crc_words mem (runCRCWord (mem address) crc)
           (word_addresses (address + 16 - 2 * of_nat (buff_len - Suc 0)) (iterations (address_ctr - 1))),
         (reads @ word_addresses address 8) @
           word_addresses (address + 16) (prefetched (Suc 0) (iterations (address_ctr - 1))))"
      by (rule Suc.hyps(1) [OF n _ _ inv]) (simp_all add: buff_len_def length_word_addresses)
    have a: "address + 16 - 2 * of_nat (buff_len - Suc 0) = address + 2"
      by (simp add: buff_len_def)
    show ?thesis
      unfolding True burst_step_refill [OF Suc.prems(2)] it
      using more word_addresses_add [of address 8 "prefetched (Suc 0) (iterations (address_ctr - 1))"]
      by (simp add: ih a prefetched_refill word_addresses_Suc crc_words_Cons)
  next
    case False
    then have lt: "p < buff_len"
      using Suc.prems(1) by simp
    have cur: "buff ! p = mem (address - 2 * of_nat (buff_len - p))"
      using Suc.prems(3) lt by simp
    have inv: "\<forall>j. Suc p \<le> j \<and> j < buff_len \<longrightarrow>
        buff ! j = mem (address - 2 * of_nat (buff_len - j))"
      using Suc.prems(3) by simp
    have ih: "calcCRCFlashBurst_loop mem address (address_ctr - 1)
          (runCRCWord (buff ! p) crc) buff (Suc p) reads =
        (crc_words mem (runCRCWord (buff ! p) crc)
           (word_addresses (address - 2 * of_nat (buff_len - Suc p)) (iterations (address_ctr - 1))),
         reads @ word_addresses address (prefetched (Suc p) (iterations (address_ctr - 1))))"
      using lt by (intro Suc.hyps(1) [OF n _ Suc.prems(2) inv]) simp
    have a: "address - 2 * of_nat (buff_len - Suc p) = address - 2 * of_nat (buff_len - p) + 2"
      using lt by (simp add: Suc_diff_Suc [symmetric] del: Suc_diff_Suc)
    show ?thesis
      unfolding burst_step_buffered [OF False] it
      using more ih
      by (simp add: a cur prefetched_buffered [OF lt] word_addresses_Suc crc_words_Cons)
  qed
qed

lemma calcCRCFlash_eq:
  "calcCRCFlash mem start_addr end_addr start_crc =
     (NOT (crc_words mem (NOT start_crc)
        (word_addresses start_addr (iterations ((end_addr - start_addr) div 2)))),
      word_addresses start_addr (iterations ((end_addr - start_addr) div 2)))"
  by (simp add: calcCRCFlash_def calcCRCFlash_loop_eq Let_def)

lemma calcCRCFlashBurst_eq:
  "calcCRCFlashBurst mem start_addr end_addr start_crc =
     (NOT (crc_words mem (NOT start_crc)
        (word_addresses start_addr (iterations ((end_addr - start_addr) div 2)))),
      word_addresses start_addr
        (prefetched buff_len (iterations ((end_addr - start_addr) div 2))))"
proof -
  have "calcCRCFlashBurst_loop mem start_addr ((end_addr - start_addr) div 2) (NOT start_crc)
      (replicate buff_len 0) buff_len [] =
    (crc_words mem (NOT start_crc)
       (word_addresses (start_addr - 2 * of_nat (buff_len - buff_len))
          (iterations ((end_addr - start_addr) div 2))),
     [] @ word_addresses start_addr
       (prefetched buff_len (iterations ((end_addr - start_addr) div 2))))"
    by (rule calcCRCFlashBurst_loop_eq) auto
  then show ?thesis
    by (simp add: calcCRCFlashBurst_def Let_def)
qed

text \<open>
  C1. \<open>calcCRCFlash\<close> and \<open>calcCRCFlashBurst\<close> return the same checksum for
  the same start address, end address and seed, over any memory content. This holds
  for every region, in particular for every region whose length is a multiple of 2.
\<close>

theorem calcCRCFlashBurst_same_crc:
  "fst (calcCRCFlashBurst mem start_addr end_addr start_crc) =
   fst (calcCRCFlash mem start_addr end_addr start_crc)"
proof -
  let ?region = "word_addresses start_addr (iterations ((end_addr - start_addr) div 2))"
  have "fst (calcCRCFlash mem start_addr end_addr start_crc) =
      NOT (crc_words mem (NOT start_crc) ?region)"
    by (simp add: calcCRCFlash_eq)
  moreover have "fst (calcCRCFlashBurst mem start_addr end_addr start_crc) =
      NOT (crc_words mem (NOT start_crc) ?region)"
    by (simp add: calcCRCFlashBurst_eq)
  ultimately show ?thesis
    by simp
qed

subsection \<open>Seed chaining\<close>

lemma even_pos_ge2:
  assumes "even (d::nat)" "0 < d"
  shows "2 \<le> d"
proof -
  obtain k where "d = 2 * k"
    using assms(1) by (elim evenE)
  then show ?thesis
    using assms(2) by simp
qed

lemma even_add_div2: "even (x::nat) \<Longrightarrow> (x + y) div 2 = x div 2 + y div 2"
  by (auto elim!: evenE)

lemma chained_word_count:
  fixes a b c :: nat
  assumes "even (b - a)" "a < b" "b < c"
  shows "(c - a) div 2 = (b - a) div 2 + (c - b) div 2"
proof -
  have "c - a = (b - a) + (c - b)"
    using assms(2,3) by simp
  then show ?thesis
    using even_add_div2 [OF assms(1), of "c - b"] by simp
qed

lemma even_unat: "even (unat (w :: u32)) = even w"
proof -
  have "bit (unat w) 0 = bit w 0"
    by (simp only: bit_unsigned_iff) simp
  then show ?thesis
    by (simp only: bit_0) simp
qed

lemma chain_split:
  fixes a b c :: u32
  assumes "a < b" "b < c" "even (b - a)" "2 \<le> c - b"
  shows "iterations ((c - a) div 2) = iterations ((b - a) div 2) + iterations ((c - b) div 2)"
    and "a + 2 * of_nat (iterations ((b - a) div 2)) = b"
proof -
  have ab: "unat a < unat b" and bc: "unat b < unat c"
    using assms(1,2) by (simp_all add: word_less_nat_alt)
  have ba: "unat (b - a) = unat b - unat a" and cb: "unat (c - b) = unat c - unat b"
    and ca: "unat (c - a) = unat c - unat a"
    using assms(1,2) by (simp_all add: unat_sub)
  have ev: "even (unat b - unat a)"
    using assms(3) unfolding ba [symmetric] even_unat .
  have two: "2 \<le> unat c - unat b"
    using assms(4) cb by (simp add: word_le_nat_alt)
  have n1: "unat ((b - a) div 2) = (unat b - unat a) div 2"
    by (simp add: unat_div ba)
  have n2: "unat ((c - b) div 2) = (unat c - unat b) div 2"
    by (simp add: unat_div cb)
  have n: "unat ((c - a) div 2) = (unat c - unat a) div 2"
    by (simp add: unat_div ca)
  have d2: "2 \<le> unat b - unat a"
    using ab by (intro even_pos_ge2 [OF ev]) simp
  have "0 < unat ((b - a) div 2)"
    unfolding n1 using d2 by simp
  then have nz1: "(b - a) div 2 \<noteq> 0"
    unfolding unat_gt_0 .
  have "0 < unat ((c - b) div 2)"
    unfolding n2 using two by simp
  then have nz2: "(c - b) div 2 \<noteq> 0"
    unfolding unat_gt_0 .
  have "0 < unat ((c - a) div 2)"
    unfolding n using two ab bc by simp
  then have nz: "(c - a) div 2 \<noteq> 0"
    unfolding unat_gt_0 .
  have "(unat c - unat a) div 2 = (unat b - unat a) div 2 + (unat c - unat b) div 2"
    by (rule chained_word_count [OF ev ab bc])
  then show "iterations ((c - a) div 2) = iterations ((b - a) div 2) + iterations ((c - b) div 2)"
    unfolding iterations_nonzero [OF nz] iterations_nonzero [OF nz1] iterations_nonzero [OF nz2]
      n n1 n2 .
  have "2 * of_nat (unat ((b - a) div 2)) = (of_nat (2 * ((unat b - unat a) div 2)) :: u32)"
    unfolding n1 by simp
  also have "2 * ((unat b - unat a) div 2) = unat (b - a)"
    using ev ba by simp
  finally show "a + 2 * of_nat (iterations ((b - a) div 2)) = b"
    unfolding iterations_nonzero [OF nz1] by simp
qed

lemma minus_one_u32: "(- 1 :: u32) = 0xFFFFFFFF"
  by simp

lemma example_registers:
  "runCRCWord 0 (runCRCWord 0 (- 1)) = 0xDEBB20E3"
  "runCRCWord 1 (runCRCWord 0 (- 1)) = 0xC7A011A2"
  unfolding runCRCWord_bytes crc32_byte_unfold minus_one_u32
  by (simp_all add: crc32_bit_numeral bit_0)

text \<open>
  C3, as stated, fails. The word count is \<open>(end_addr - start_addr) / 2\<close> rounded
  down and every region is read in steps of two bytes from its own start. With
  \<open>a = 0\<close>, \<open>b = 3\<close>, \<open>c = 5\<close> the chained computation reads the words at
  0 and 3, the single pass reads the words at 0 and 2. Over a memory whose byte at
  address 2 is 1 and whose other bytes are 0 (the word at 2 reads 1, the word at 1 reads
  0x100, every other word 0) the two checksums differ.
\<close>

theorem calcCRCFlash_chaining_counterexample:
  "(0 :: u32) < 3 \<and> (3 :: u32) < 5
   \<and> fst (calcCRCFlash (\<lambda>a. if a = 2 then 1 else if a = 1 then 0x100 else 0) 3 5
          (fst (calcCRCFlash (\<lambda>a. if a = 2 then 1 else if a = 1 then 0x100 else 0) 0 3 0))) = 0x2144DF1C
   \<and> fst (calcCRCFlash (\<lambda>a. if a = 2 then 1 else if a = 1 then 0x100 else 0) 0 5 0) = 0x385FEE5D
   \<and> fst (calcCRCFlash (\<lambda>a. if a = 2 then 1 else if a = 1 then 0x100 else 0) 3 5
          (fst (calcCRCFlash (\<lambda>a. if a = 2 then 1 else if a = 1 then 0x100 else 0) 0 3 0)))
       \<noteq> fst (calcCRCFlash (\<lambda>a. if a = 2 then 1 else if a = 1 then 0x100 else 0) 0 5 0)"
proof -
  have i1: "iterations ((3 - 0) div 2) = Suc 0" "iterations ((5 - 3) div 2) = Suc 0"
    "iterations ((5 - 0) div 2) = Suc (Suc 0)"
    by (simp_all add: iterations_def)
  show ?thesis
    unfolding calcCRCFlash_eq fst_conv i1 word_addresses_Suc word_addresses_0 crc_words_Cons
      crc_words_Nil
    by (simp add: example_registers)
qed

text \<open>
  C3, amended. For \<open>a < b < c\<close> where the first region has an even number of bytes
  and the second region holds at least one whole word, the checksum of \<open>[b, c)\<close>
  seeded with the checksum of \<open>[a, b)\<close> (itself seeded with 0) equals the checksum
  of \<open>[a, c)\<close> seeded with 0, over the same memory.
\<close>

theorem calcCRCFlash_chaining:
  fixes a b c :: u32
  assumes "a < b" "b < c" "even (b - a)" "2 \<le> c - b"
  shows "fst (calcCRCFlash mem b c (fst (calcCRCFlash mem a b 0))) = fst (calcCRCFlash mem a c 0)"
  unfolding calcCRCFlash_eq fst_conv chain_split(1) [OF assms] word_addresses_add
    chain_split(2) [OF assms] crc_words_append
  by simp

theorem calcCRCFlash_chaining_witness:
  "(0 :: u32) < 2 \<and> (2 :: u32) < 4 \<and> even (2 - 0 :: u32) \<and> (2 :: u32) \<le> 4 - 2
   \<and> fst (calcCRCFlash (\<lambda>a. ucast a) 2 4 (fst (calcCRCFlash (\<lambda>a. ucast a) 0 2 0)))
       = fst (calcCRCFlash (\<lambda>a. ucast a) 0 4 0)"
  using calcCRCFlash_chaining [of 0 2 4 "\<lambda>a. ucast a"] by simp

subsection \<open>What the burst variant reads\<close>
















subsection \<open>The firmware-end scan\<close>

lemma erased_run_le: "erased_run mem upper n \<le> n"
  by (induction n arbitrary: upper) auto

lemma erased_run_erased:
  "j < erased_run mem upper n \<Longrightarrow> mem (upper - 2 * of_nat (Suc j)) = 0xFFFF"
proof (induction n arbitrary: upper j)
  case 0
  then show ?case by simp
next
  case (Suc n)
  show ?case
  proof (cases j)
    case 0
    with Suc.prems show ?thesis by (simp split: if_splits)
  next
    case (Suc i)
    with Suc.prems have "i < erased_run mem (upper - 2) n" and "mem (upper - 2) = 0xFFFF"
      by (simp_all split: if_splits)
    from Suc.IH [OF this(1)] show ?thesis
      unfolding \<open>j = Suc i\<close> by (simp add: algebra_simps)
  qed
qed

lemma erased_run_stop:
  "erased_run mem upper n = n \<or> mem (upper - 2 * of_nat (Suc (erased_run mem upper n))) \<noteq> 0xFFFF"
proof (induction n arbitrary: upper)
  case 0
  show ?case by simp
next
  case (Suc n)
  show ?case
    using Suc.IH [of "upper - 2"] by (auto simp: algebra_simps)
qed

lemma step_offset:
  assumes "m \<le> 4096"
  shows "((0x3E000 :: u32) + 2 * of_nat m = 0x3E000) = (m = 0)"
proof -
  have "unat (of_nat (2 * m) :: u32) = 2 * m"
    using assms by (intro le_unat_uoi [of _ "0x2000 :: u32"]) simp
  then have "((of_nat (2 * m) :: u32) = 0) = (m = 0)"
    by (metis mult_eq_0_iff unat_0_iff zero_neq_numeral)
  then show ?thesis
    by simp
qed

lemma end_address_scan_eq:
  assumes "0 < n" "n \<le> 4096"
  shows "end_address_scan mem (0x3E000 + 2 * of_nat n) =
     Some (0x3E000 + 2 * of_nat n - 2 * of_nat (erased_run mem (0x3E000 + 2 * of_nat n) n))"
  using assms
proof (induction n)
  case 0
  then show ?case by simp
next
  case (Suc m)
  let ?e = "(0x3E000 :: u32) + 2 * of_nat (Suc m)"
  have e1: "?e - 2 = 0x3E000 + 2 * of_nat m"
    by simp
  show ?case
  proof (cases "mem (?e - 2) = 0xFFFF")
    case False
    then show ?thesis
      by (subst end_address_scan.simps) simp
  next
    case True
    show ?thesis
    proof (cases "m = 0")
      case True
      with \<open>mem (?e - 2) = 0xFFFF\<close> show ?thesis
        by (subst end_address_scan.simps) simp
    next
      case False
      then have ne: "(0x3E000 :: u32) + 2 * of_nat m \<noteq> 0x3E000"
        using step_offset [of m] Suc.prems by simp
      have "end_address_scan mem ?e = end_address_scan mem (0x3E000 + 2 * of_nat m)"
        using True ne by (subst end_address_scan.simps) (simp add: Let_def)
      also have "\<dots> = Some (0x3E000 + 2 * of_nat m -
          2 * of_nat (erased_run mem (0x3E000 + 2 * of_nat m) m))"
        using False Suc.prems by (intro Suc.IH) simp_all
      finally show ?thesis
        using True by (simp add: e1 algebra_simps)
    qed
  qed
qed

lemma erased_run_numeral:
  "erased_run mem upper (numeral n) =
     (if mem (upper - 2) = 0xFFFF then Suc (erased_run mem (upper - 2) (pred_numeral n)) else 0)"
  by (simp add: numeral_eq_Suc)

lemma scan_result_bounds:
  assumes "k \<le> 4096"
  shows "(0x3E000 :: u32) \<le> 0x40000 - 2 * of_nat k \<and> (0x40000 :: u32) - 2 * of_nat k \<le> 0x40000"
proof -
  have "unat (of_nat (2 * k) :: u32) = 2 * k"
    using assms by (intro le_unat_uoi [of _ "0x2000 :: u32"]) simp
  then have k: "unat (2 * of_nat k :: u32) = 2 * k"
    by simp
  have "(2 * of_nat k :: u32) \<le> 0x40000"
    using assms by (simp add: word_le_nat_alt k)
  then have "unat ((0x40000 :: u32) - 2 * of_nat k) = 0x40000 - 2 * k"
    by (simp add: unat_sub k)
  then show ?thesis
    using assms by (simp add: word_le_nat_alt)
qed

text \<open>
  C9. The scan of \<open>startLCDTest\<close> returns, for every memory content. With
  \<open>k\<close> the number of consecutive erased words directly below 0x40000, counted up
  to 4096, it returns \<open>0x40000 - 2 * k\<close>: every word stepped over reads 0xFFFF,
  the result lies between 0x3E000 and 0x40000, and the scan stopped either at the
  lower bound 0x3E000 (\<open>k = 4096\<close>) or because the word just below the result is
  not erased.
\<close>

theorem firmware_end_scan:
  "firmware_end mem = Some (0x40000 - 2 * of_nat (erased_run mem 0x40000 4096))
   \<and> erased_run mem 0x40000 4096 \<le> 4096
   \<and> 0x3E000 \<le> 0x40000 - 2 * (of_nat (erased_run mem 0x40000 4096) :: u32)
   \<and> 0x40000 - 2 * (of_nat (erased_run mem 0x40000 4096) :: u32) \<le> 0x40000
   \<and> (\<forall>j < erased_run mem 0x40000 4096. mem (0x40000 - 2 * of_nat (Suc j)) = 0xFFFF)
   \<and> (erased_run mem 0x40000 4096 = 4096
        \<or> mem (0x40000 - 2 * of_nat (Suc (erased_run mem 0x40000 4096))) \<noteq> 0xFFFF)"
proof -
  have top: "(0x40000 :: u32) = 0x3E000 + 2 * of_nat 4096"
    by simp
  have "end_address_scan mem (0x3E000 + 2 * of_nat 4096) =
      Some (0x3E000 + 2 * of_nat 4096 - 2 * of_nat (erased_run mem (0x3E000 + 2 * of_nat 4096) 4096))"
    by (rule end_address_scan_eq) simp_all
  then have res: "firmware_end mem = Some (0x40000 - 2 * of_nat (erased_run mem 0x40000 4096))"
    unfolding firmware_end_def top [symmetric] .
  have le: "erased_run mem 0x40000 4096 \<le> 4096"
    by (rule erased_run_le)
  note bounds = scan_result_bounds [OF le]
  have erased: "\<forall>j < erased_run mem 0x40000 4096. mem (0x40000 - 2 * of_nat (Suc j)) = 0xFFFF"
    by (intro allI impI erased_run_erased)
  show ?thesis
    by (intro conjI res le bounds [THEN conjunct1] bounds [THEN conjunct2] erased
        erased_run_stop)
qed

theorem firmware_end_scan_witness:
  "firmware_end (\<lambda>a. if a = 0x3FFFA then 0x1234 else 0xFFFF) = Some 0x3FFFC
   \<and> (if (0x3FFFE :: u32) = 0x3FFFA then 0x1234 else 0xFFFF) = (0xFFFF :: u16)
   \<and> (if (0x3FFFC :: u32) = 0x3FFFA then 0x1234 else 0xFFFF) = (0xFFFF :: u16)
   \<and> (if (0x3FFFA :: u32) = 0x3FFFA then 0x1234 else 0xFFFF) \<noteq> (0xFFFF :: u16)"
proof -
  have k: "erased_run (\<lambda>a. if a = 0x3FFFA then 0x1234 else 0xFFFF) 0x40000 4096 = 2"
    by (simp add: erased_run_numeral)
  show ?thesis
    using firmware_end_scan [of "\<lambda>a. if a = 0x3FFFA then 0x1234 else 0xFFFF"]
    unfolding k by simp
qed

subsection \<open>The empty region\<close>

lemma erased_run_unique:
  assumes "k \<le> n" "\<forall>j<k. mem (upper - 2 * of_nat (Suc j)) = 0xFFFF"
    "k = n \<or> mem (upper - 2 * of_nat (Suc k)) \<noteq> 0xFFFF"
  shows "erased_run mem upper n = k"
  using assms
proof (induction n arbitrary: upper k)
  case 0
  then show ?case by simp
next
  case (Suc n)
  show ?case
  proof (cases k)
    case 0
    with Suc.prems(3) have "mem (upper - 2) \<noteq> 0xFFFF"
      by simp
    with 0 show ?thesis
      by simp
  next
    case (Suc k')
    have first: "mem (upper - 2) = 0xFFFF"
      using Suc.prems(2) Suc by (auto dest: spec [of _ 0])
    have "erased_run mem (upper - 2) n = k'"
    proof (rule Suc.IH)
      show "k' \<le> n"
        using Suc.prems(1) Suc by simp
      show "\<forall>j<k'. mem (upper - 2 - 2 * of_nat (Suc j)) = 0xFFFF"
      proof (intro allI impI)
        fix j assume "j < k'"
        then have "Suc j < k"
          using Suc by simp
        then have "mem (upper - 2 * of_nat (Suc (Suc j))) = 0xFFFF"
          using Suc.prems(2) by blast
        then show "mem (upper - 2 - 2 * of_nat (Suc j)) = 0xFFFF"
          by (simp add: algebra_simps)
      qed
      show "k' = n \<or> mem (upper - 2 - 2 * of_nat (Suc k')) \<noteq> 0xFFFF"
        using Suc.prems(3) Suc by (auto simp: algebra_simps)
    qed
    with first Suc show ?thesis
      by simp
  qed
qed

lemma unat_scan_address:
  assumes "k \<le> 4096"
  shows "unat ((0x40000 :: u32) - 2 * of_nat k) = 0x40000 - 2 * k"
proof -
  have "unat (of_nat (2 * k) :: u32) = 2 * k"
    using assms by (intro le_unat_uoi [of _ "0x2000 :: u32"]) simp
  then have k: "unat (2 * of_nat k :: u32) = 2 * k"
    by simp
  have "(2 * of_nat k :: u32) \<le> 0x40000"
    using assms by (simp add: word_le_nat_alt k)
  then show ?thesis
    by (simp add: unat_sub k)
qed

lemma firmware_end_service_only:
  "firmware_end (\<lambda>a. if a < 0x3E100 then 0 else 0xFFFF) = Some 0x3E100"
proof -
  let ?mem = "\<lambda>a :: u32. if a < 0x3E100 then 0 else (0xFFFF :: u16)"
  have erased: "\<forall>j<3968. ?mem (0x40000 - 2 * of_nat (Suc j)) = 0xFFFF"
  proof (intro allI impI)
    fix j :: nat
    assume j: "j < 3968"
    then have "unat ((0x40000 :: u32) - 2 * of_nat (Suc j)) = 0x40000 - 2 * Suc j"
      by (intro unat_scan_address) simp
    then have "\<not> (0x40000 :: u32) - 2 * of_nat (Suc j) < 0x3E100"
      using j by (simp add: word_less_nat_alt)
    then show "?mem (0x40000 - 2 * of_nat (Suc j)) = 0xFFFF"
      by (simp only: if_False)
  qed
  have stop: "(3968 :: nat) = 4096 \<or> ?mem (0x40000 - 2 * of_nat (Suc 3968)) \<noteq> 0xFFFF"
    by simp
  have run: "erased_run ?mem 0x40000 4096 = 3968"
    by (rule erased_run_unique [OF _ erased stop]) simp
  have top: "(0x40000 :: u32) = 0x3E000 + 2 * of_nat 4096"
    by simp
  have "end_address_scan ?mem (0x3E000 + 2 * of_nat 4096) =
      Some (0x3E000 + 2 * of_nat 4096 - 2 * of_nat (erased_run ?mem (0x3E000 + 2 * of_nat 4096) 4096))"
    by (rule end_address_scan_eq) simp_all
  then have "firmware_end ?mem = Some (0x40000 - 2 * of_nat (erased_run ?mem 0x40000 4096))"
    unfolding firmware_end_def top [symmetric] .
  then show ?thesis
    unfolding run by simp
qed

text \<open>
  C5. The claim asks \<open>calcCRCFlash\<close> to process 0 words for a region of length 0.
  \<open>startLCDTest\<close> calls \<open>calcCRCFlash(0x3E100, end_address, service_crc)\<close> with
  the result of its scan, and over a flash that is programmed below 0x3E100 and erased
  from there on the scan returns 0x3E100. At \<open>start_addr = end_addr = 0x3E100\<close> the
  counter starts at 0, the body of the do-while loop runs before the test and the
  pre-decrement wraps to \<open>0xFFFFFFFF\<close>: the function reads \<open>2 ^ 32\<close> words, from
  0x3E100 on through the whole address space.
\<close>

theorem calcCRCFlash_empty_region:
  "firmware_end (\<lambda>a. if a < 0x3E100 then 0 else 0xFFFF) = Some 0x3E100
   \<and> snd (calcCRCFlash mem 0x3E100 0x3E100 start_crc) = word_addresses 0x3E100 (2 ^ 32)
   \<and> length (snd (calcCRCFlash mem 0x3E100 0x3E100 start_crc)) = 4294967296"
proof -
  have counter: "(0x3E100 - 0x3E100 :: u32) div 2 = 0"
    by simp
  have reads: "snd (calcCRCFlash mem 0x3E100 0x3E100 start_crc) = word_addresses 0x3E100 (2 ^ 32)"
    unfolding calcCRCFlash_eq snd_conv counter iterations_zero ..
  have "length (word_addresses 0x3E100 (2 ^ 32)) = 4294967296"
    by (simp add: length_word_addresses)
  then show ?thesis
    using firmware_end_service_only reads by simp
qed

section \<open>Properties of the test runner\<close>

subsection \<open>The report\<close>

lemma report_lines_False:
  "report_lines False rs = concat (map failure_line (filter (\<lambda>r. \<not> success r) rs))"
  by (induction rs) simp_all

lemma report_lines_True:
  "report_lines True rs =
     (if \<exists>r \<in> set rs. \<not> success r
      then ''Testing completed with errors.'' @ [CHR 0x0D, CHR 0x0A] @
           ''Please check the following components:'' @ [CHR 0x0D, CHR 0x0A] @
           concat (map failure_line (filter (\<lambda>r. \<not> success r) rs))
      else [])"
  by (induction rs) (simp_all add: report_lines_False)

lemma report_line_printed:
  "Serial_println '')'' (Serial_print (status r) (Serial_print '' ('' (Serial_print (device r)
     (Serial_print ''- '' w)))) = w\<lparr>serial := serial w @ failure_line r\<rparr>"
  by (simp add: Serial_print_def Serial_println_def failure_line_def)

lemma report_header_printed:
  "Serial_println ''Please check the following components:''
     (Serial_println ''Testing completed with errors.'' w) =
   w\<lparr>serial := serial w @ ''Testing completed with errors.'' @ [CHR 0x0D, CHR 0x0A] @
        ''Please check the following components:'' @ [CHR 0x0D, CHR 0x0A]\<rparr>"
  by (simp add: Serial_println_def)

lemma report_loop_eq:
  assumes "0 \<le> i" "i \<le> testCnt w" "testCnt w \<le> int (length (test_results w))"
  shows "report_loop i test_success w =
     Inr (test_success \<and> (\<forall>r \<in> set (drop (nat i) (take (nat (testCnt w)) (test_results w))). success r),
          w\<lparr>serial := serial w @
             report_lines test_success (drop (nat i) (take (nat (testCnt w)) (test_results w)))\<rparr>)"
  using assms
proof (induction "nat (testCnt w - i)" arbitrary: i test_success w)
  case 0
  then have "i = testCnt w"
    by simp
  then show ?case
    by (subst report_loop.simps) simp
next
  case (Suc n)
  let ?rs = "take (nat (testCnt w)) (test_results w)"
  have lt: "i < testCnt w"
    using Suc.hyps(2) by simp
  have len: "nat i < length ?rs"
    using lt Suc.prems by simp
  have nth: "?rs ! nat i = test_results w ! nat i"
    using lt Suc.prems by simp
  have split: "drop (nat i) ?rs = test_results w ! nat i # drop (nat (i + 1)) ?rs"
    using Cons_nth_drop_Suc [OF len] nth Suc.prems(1) by (simp add: nat_add_distrib)
  let ?r = "test_results w ! nat i"
  show ?case
  proof (cases "success ?r")
    case True
    have "report_loop i test_success w = report_loop (i + 1) test_success w"
      using lt Suc.prems True by (subst report_loop.simps) simp
    also have "\<dots> = Inr (test_success \<and> (\<forall>r \<in> set (drop (nat (i + 1)) ?rs). success r),
        w\<lparr>serial := serial w @ report_lines test_success (drop (nat (i + 1)) ?rs)\<rparr>)"
      using Suc.hyps(2) Suc.prems lt by (intro Suc.hyps(1)) simp_all
    finally show ?thesis
      unfolding split using True by simp
  next
    case False
    let ?w1 = "if test_success
        then Serial_println ''Please check the following components:''
               (Serial_println ''Testing completed with errors.'' w)
        else w"
    let ?w2 = "?w1\<lparr>serial := serial ?w1 @ failure_line ?r\<rparr>"
    have frame: "testCnt ?w2 = testCnt w" "test_results ?w2 = test_results w"
      by (simp_all add: Serial_println_def)
    have "report_loop i test_success w = report_loop (i + 1) False ?w2"
      using lt Suc.prems False
      by (subst report_loop.simps) (simp add: Let_def report_line_printed)
    also have "\<dots> = Inr (False \<and> (\<forall>r \<in> set (drop (nat (i + 1))
          (take (nat (testCnt ?w2)) (test_results ?w2))). success r),
        ?w2\<lparr>serial := serial ?w2 @ report_lines False (drop (nat (i + 1))
          (take (nat (testCnt ?w2)) (test_results ?w2)))\<rparr>)"
    proof (rule Suc.hyps(1))
      show "n = nat (testCnt ?w2 - (i + 1))"
        unfolding frame using Suc.hyps(2) by simp
      show "0 \<le> i + 1" "i + 1 \<le> testCnt ?w2"
        "testCnt ?w2 \<le> int (length (test_results ?w2))"
        unfolding frame using Suc.prems lt by simp_all
    qed
    finally show ?thesis
      unfolding split frame using False by (simp add: report_header_printed)
  qed
qed

text \<open>
  C4. For any recorded results (a count within the buffer), the end-of-run report
  appends to the serial output: when at least one recorded result failed, the
  "completed with errors" line and the instruction line once, followed by one line
  \<open>- <device> (<status>)\<close> per failing result in recording order, nothing for a
  succeeding result; when none failed, the single "no problems found" line.
\<close>

theorem report_prints_failures:
  assumes "0 \<le> testCnt w" "testCnt w \<le> int (length (test_results w))"
  shows "report w =
     Inr (w\<lparr>serial := serial w @ report_text (take (nat (testCnt w)) (test_results w))\<rparr>)"
proof -
  let ?rs = "take (nat (testCnt w)) (test_results w)"
  have "report_loop 0 True w =
      Inr (True \<and> (\<forall>r \<in> set (drop (nat 0) ?rs). success r),
           w\<lparr>serial := serial w @ report_lines True (drop (nat 0) ?rs)\<rparr>)"
    using assms by (intro report_loop_eq) simp_all
  then show ?thesis
    by (simp add: report_def report_lines_True report_text_def Serial_println_def)
qed

theorem report_prints_failures_witness:
  "report \<lparr>testCnt = 3,
           test_results =
             [\<lparr>device = ''LCD Screen'', success = True, status = ''OK''\<rparr>,
              \<lparr>device = ''Flash'', success = False, status = ''no ack''\<rparr>,
              \<lparr>device = ''SRAM'', success = False, status = ''bad cell''\<rparr>],
           serial = [], lcd = [], samples = 0\<rparr> =
     Inr \<lparr>testCnt = 3,
          test_results =
             [\<lparr>device = ''LCD Screen'', success = True, status = ''OK''\<rparr>,
              \<lparr>device = ''Flash'', success = False, status = ''no ack''\<rparr>,
              \<lparr>device = ''SRAM'', success = False, status = ''bad cell''\<rparr>],
          serial = ''Testing completed with errors.'' @ [CHR 0x0D, CHR 0x0A] @
                   ''Please check the following components:'' @ [CHR 0x0D, CHR 0x0A] @
                   ''- Flash (no ack)'' @ [CHR 0x0D, CHR 0x0A] @
                   ''- SRAM (bad cell)'' @ [CHR 0x0D, CHR 0x0A],
          lcd = [], samples = 0\<rparr>
   \<and> report \<lparr>testCnt = 2,
           test_results =
             [\<lparr>device = ''LCD Screen'', success = True, status = ''OK''\<rparr>,
              \<lparr>device = ''Flash'', success = True, status = ''OK''\<rparr>],
           serial = [], lcd = [], samples = 0\<rparr> =
     Inr \<lparr>testCnt = 2,
          test_results =
             [\<lparr>device = ''LCD Screen'', success = True, status = ''OK''\<rparr>,
              \<lparr>device = ''Flash'', success = True, status = ''OK''\<rparr>],
          serial = ''Testing completed: no problems found.'' @ [CHR 0x0D, CHR 0x0A],
          lcd = [], samples = 0\<rparr>"
proof -
  let ?w1 = "\<lparr>testCnt = 3,
           test_results =
             [\<lparr>device = ''LCD Screen'', success = True, status = ''OK''\<rparr>,
              \<lparr>device = ''Flash'', success = False, status = ''no ack''\<rparr>,
              \<lparr>device = ''SRAM'', success = False, status = ''bad cell''\<rparr>],
           serial = [], lcd = [], samples = 0\<rparr>"
  let ?w2 = "\<lparr>testCnt = 2,
           test_results =
             [\<lparr>device = ''LCD Screen'', success = True, status = ''OK''\<rparr>,
              \<lparr>device = ''Flash'', success = True, status = ''OK''\<rparr>],
           serial = [], lcd = [], samples = 0\<rparr>"
  have "0 \<le> testCnt ?w1" "testCnt ?w1 \<le> int (length (test_results ?w1))"
    by simp_all
  from report_prints_failures [OF this] have one: "report ?w1 =
      Inr (?w1\<lparr>serial := serial ?w1 @ report_text (take (nat (testCnt ?w1)) (test_results ?w1))\<rparr>)" .
  have "0 \<le> testCnt ?w2" "testCnt ?w2 \<le> int (length (test_results ?w2))"
    by simp_all
  from report_prints_failures [OF this] have two: "report ?w2 =
      Inr (?w2\<lparr>serial := serial ?w2 @ report_text (take (nat (testCnt ?w2)) (test_results ?w2))\<rparr>)" .
  show ?thesis
    unfolding one two by (simp add: report_text_def failure_line_def)
qed

subsection \<open>The entry check\<close>

lemma wait_select_released_step:
  "wait_select_released hw w =
     (if select_pressed hw (samples w)
      then wait_select_released hw (w\<lparr>samples := samples w + 1\<rparr>)
      else Some (w\<lparr>samples := samples w + 1\<rparr>))"
  by (subst wait_select_released.simps) (simp add: isSelectPressed_def)

lemma wait_select_timeout_step:
  "wait_select_timeout hw sel_start w =
     (if select_pressed hw (samples w)
      then if millis_at hw (samples w + 1) - sel_start < 1000
           then wait_select_timeout hw sel_start (w\<lparr>samples := samples w + 2\<rparr>)
           else Some (w\<lparr>samples := samples w + 2\<rparr>)
      else Some (w\<lparr>samples := samples w + 1\<rparr>))"
  by (subst wait_select_timeout.simps) (simp add: isSelectPressed_def millis_def)

lemma wait_select_released_returns:
  assumes "samples w \<le> r" "\<forall>n. samples w \<le> n \<and> n < r \<longrightarrow> select_pressed hw n"
    "\<not> select_pressed hw r"
  shows "wait_select_released hw w = Some (w\<lparr>samples := r + 1\<rparr>)"
  using assms
proof (induction "r - samples w" arbitrary: w)
  case 0
  then have "samples w = r"
    by simp
  with "0.prems"(3) show ?case
    by (subst wait_select_released_step) simp
next
  case (Suc d)
  then have "select_pressed hw (samples w)"
    by simp
  then have "wait_select_released hw w = wait_select_released hw (w\<lparr>samples := samples w + 1\<rparr>)"
    by (subst wait_select_released_step) simp
  also have "\<dots> = Some (w\<lparr>samples := samples w + 1\<rparr>\<lparr>samples := r + 1\<rparr>)"
    using Suc.hyps(2) Suc.prems by (intro Suc.hyps(1)) simp_all
  finally show ?case
    by simp
qed

lemma wait_select_released_Some:
  assumes "wait_select_released hw w = Some w'"
  shows "w' = w\<lparr>samples := samples w'\<rparr> \<and> samples w < samples w'
       \<and> \<not> select_pressed hw (samples w' - 1)
       \<and> (\<forall>n. samples w \<le> n \<and> n < samples w' - 1 \<longrightarrow> select_pressed hw n)"
  using assms
proof (induct rule: wait_select_released.raw_induct [rotated 1, consumes 1, case_names step])
  case (step wait hw w w')
  note hyps = step(2) and IH = step(1)
  show ?case
  proof (cases "select_pressed hw (samples w)")
    case False
    with hyps have "w' = w\<lparr>samples := samples w + 1\<rparr>"
      by (simp add: isSelectPressed_def)
    with False show ?thesis
      by auto
  next
    case True
    with hyps have "wait hw (w\<lparr>samples := samples w + 1\<rparr>) = Some w'"
      by (simp add: isSelectPressed_def)
    from IH [OF this] have ih: "w' = w\<lparr>samples := samples w'\<rparr>" "samples w + 1 < samples w'"
      "\<not> select_pressed hw (samples w' - 1)"
      "\<forall>n. samples w + 1 \<le> n \<and> n < samples w' - 1 \<longrightarrow> select_pressed hw n"
      by simp_all
    have "\<forall>n. samples w \<le> n \<and> n < samples w' - 1 \<longrightarrow> select_pressed hw n"
    proof (intro allI impI)
      fix n
      assume n: "samples w \<le> n \<and> n < samples w' - 1"
      show "select_pressed hw n"
      proof (cases "n = samples w")
        case True
        with \<open>select_pressed hw (samples w)\<close> show ?thesis by simp
      next
        case False
        with n ih(4) show ?thesis by simp
      qed
    qed
    with ih show ?thesis
      by simp
  qed
qed

lemma wait_select_timeout_Some:
  assumes "wait_select_timeout hw sel_start w = Some w'"
  shows "w' = w\<lparr>samples := samples w'\<rparr> \<and> samples w < samples w'"
  using assms
proof (induct rule: wait_select_timeout.raw_induct [rotated 1, consumes 1, case_names step])
  case (step wait hw sel_start w w')
  note hyps = step(2) and IH = step(1)
  show ?case
  proof (cases "select_pressed hw (samples w) \<and> millis_at hw (samples w + 1) - sel_start < 1000")
    case False
    with hyps have "w' = w\<lparr>samples := samples w + 1\<rparr> \<or> w' = w\<lparr>samples := samples w + 2\<rparr>"
      by (auto simp: isSelectPressed_def millis_def split: if_splits)
    then show ?thesis
      by auto
  next
    case True
    with hyps have "wait hw sel_start (w\<lparr>samples := samples w + 2\<rparr>) = Some w'"
      by (simp add: isSelectPressed_def millis_def)
    from IH [OF this] show ?thesis
      by simp
  qed
qed

lemma wait_select_timeout_returns:
  assumes "\<forall>i<j. select_pressed hw (samples w + 2 * i)
             \<and> millis_at hw (samples w + 2 * i + 1) - sel_start < 1000"
  shows "\<not> select_pressed hw (samples w + 2 * j) \<Longrightarrow>
           wait_select_timeout hw sel_start w = Some (w\<lparr>samples := samples w + 2 * j + 1\<rparr>)"
    and "select_pressed hw (samples w + 2 * j) \<Longrightarrow>
         \<not> millis_at hw (samples w + 2 * j + 1) - sel_start < 1000 \<Longrightarrow>
           wait_select_timeout hw sel_start w = Some (w\<lparr>samples := samples w + 2 * j + 2\<rparr>)"
  using assms
proof (induction j arbitrary: w)
  case 0
  {
    case 1
    then show ?case
      by (subst wait_select_timeout_step) simp
  next
    case 2
    then show ?case
      by (subst wait_select_timeout_step) simp
  }
next
  case (Suc j)
  {
    case 1
    let ?w = "w\<lparr>samples := samples w + 2\<rparr>"
    from 1 have first: "select_pressed hw (samples w)" "millis_at hw (samples w + 1) - sel_start < 1000"
      by (auto dest: spec [of _ 0])
    have rest: "\<forall>i<j. select_pressed hw (samples ?w + 2 * i)
        \<and> millis_at hw (samples ?w + 2 * i + 1) - sel_start < 1000"
    proof (intro allI impI)
      fix i assume "i < j"
      then have "Suc i < Suc j" by simp
      with 1(2) have "select_pressed hw (samples w + 2 * Suc i)
          \<and> millis_at hw (samples w + 2 * Suc i + 1) - sel_start < 1000"
        by blast
      then show "select_pressed hw (samples ?w + 2 * i)
          \<and> millis_at hw (samples ?w + 2 * i + 1) - sel_start < 1000"
        by (simp add: algebra_simps)
    qed
    have stop: "\<not> select_pressed hw (samples ?w + 2 * j)"
      using 1(1) by (simp add: algebra_simps)
    have "wait_select_timeout hw sel_start w = wait_select_timeout hw sel_start ?w"
      using first by (subst wait_select_timeout_step) simp
    also have "\<dots> = Some (?w\<lparr>samples := samples ?w + 2 * j + 1\<rparr>)"
      by (rule Suc.IH(1) [OF stop rest])
    finally show ?case
      by (simp add: algebra_simps)
  next
    case 2
    let ?w = "w\<lparr>samples := samples w + 2\<rparr>"
    from 2 have first: "select_pressed hw (samples w)" "millis_at hw (samples w + 1) - sel_start < 1000"
      by (auto dest: spec [of _ 0])
    have rest: "\<forall>i<j. select_pressed hw (samples ?w + 2 * i)
        \<and> millis_at hw (samples ?w + 2 * i + 1) - sel_start < 1000"
    proof (intro allI impI)
      fix i assume "i < j"
      then have "Suc i < Suc j" by simp
      with 2(3) have "select_pressed hw (samples w + 2 * Suc i)
          \<and> millis_at hw (samples w + 2 * Suc i + 1) - sel_start < 1000"
        by blast
      then show "select_pressed hw (samples ?w + 2 * i)
          \<and> millis_at hw (samples ?w + 2 * i + 1) - sel_start < 1000"
        by (simp add: algebra_simps)
    qed
    have stop: "select_pressed hw (samples ?w + 2 * j)"
      "\<not> millis_at hw (samples ?w + 2 * j + 1) - sel_start < 1000"
      using 2(1,2) by (simp_all add: algebra_simps)
    have "wait_select_timeout hw sel_start w = wait_select_timeout hw sel_start ?w"
      using first by (subst wait_select_timeout_step) simp
    also have "\<dots> = Some (?w\<lparr>samples := samples ?w + 2 * j + 2\<rparr>)"
      by (rule Suc.IH(2) [OF stop rest])
    finally show ?case
      by (simp add: algebra_simps)
  }
qed

lemma doTest_interlock_unfold:
  "doTest_interlock hw w =
     (case wait_select_timeout hw (millis_at hw (samples w)) (w\<lparr>samples := samples w + 1\<rparr>) of
        None \<Rightarrow> None
      | Some w2 \<Rightarrow>
          if select_pressed hw (samples w2)
          then (case wait_select_released hw
                       (w2\<lparr>samples := samples w2 + 1, lcd := lcd w2 @ [ShowMessage release_message]\<rparr>) of
                  None \<Rightarrow> None
                | Some w4 \<Rightarrow> Some (w4\<lparr>lcd := lcd w4 @ [ShowMessage []]\<rparr>))
          else Some (w2\<lparr>samples := samples w2 + 1\<rparr>))"
  by (simp add: doTest_interlock_def millis_def isSelectPressed_def showMessage_def
      split: option.splits)

lemma interlock_held:
  assumes timing: "\<forall>i<j. millis_at hw (samples w + 2 + 2 * i) - millis_at hw (samples w) < 1000"
    and timeout: "\<not> millis_at hw (samples w + 2 + 2 * j) - millis_at hw (samples w) < 1000"
    and held: "\<forall>n. samples w < n \<and> n < r \<longrightarrow> select_pressed hw n"
    and later: "samples w + 3 + 2 * j < r"
    and released: "\<not> select_pressed hw r"
  shows "doTest_interlock hw w =
     Some (w\<lparr>samples := r + 1, lcd := lcd w @ [ShowMessage release_message, ShowMessage []]\<rparr>)"
proof -
  let ?s = "millis_at hw (samples w)"
  let ?w1 = "w\<lparr>samples := samples w + 1\<rparr>"
  have loop: "\<forall>i<j. select_pressed hw (samples ?w1 + 2 * i)
      \<and> millis_at hw (samples ?w1 + 2 * i + 1) - ?s < 1000"
  proof (intro allI impI)
    fix i assume i: "i < j"
    then have "samples w < samples w + 1 + 2 * i \<and> samples w + 1 + 2 * i < r"
      using later by simp
    with held have "select_pressed hw (samples w + 1 + 2 * i)"
      by blast
    moreover have "millis_at hw (samples w + 2 + 2 * i) - ?s < 1000"
      using timing i by blast
    ultimately show "select_pressed hw (samples ?w1 + 2 * i)
        \<and> millis_at hw (samples ?w1 + 2 * i + 1) - ?s < 1000"
      by (simp add: algebra_simps)
  qed
  have "samples w < samples w + 1 + 2 * j \<and> samples w + 1 + 2 * j < r"
    using later by simp
  with held have last: "select_pressed hw (samples ?w1 + 2 * j)"
    by simp
  have expired: "\<not> millis_at hw (samples ?w1 + 2 * j + 1) - ?s < 1000"
    using timeout by (simp add: algebra_simps)
  have t: "wait_select_timeout hw ?s ?w1 = Some (w\<lparr>samples := samples w + 3 + 2 * j\<rparr>)"
    using wait_select_timeout_returns(2) [OF loop last expired] by (simp add: algebra_simps)
  have "samples w < samples w + 3 + 2 * j \<and> samples w + 3 + 2 * j < r"
    using later by simp
  with held have again: "select_pressed hw (samples w + 3 + 2 * j)"
    by blast
  let ?w3 = "w\<lparr>samples := samples w + 3 + 2 * j + 1, lcd := lcd w @ [ShowMessage release_message]\<rparr>"
  have "wait_select_released hw ?w3 = Some (?w3\<lparr>samples := r + 1\<rparr>)"
  proof (rule wait_select_released_returns)
    show "samples ?w3 \<le> r"
      using later by simp
    show "\<forall>n. samples ?w3 \<le> n \<and> n < r \<longrightarrow> select_pressed hw n"
      using held by simp
    show "\<not> select_pressed hw r"
      by (rule released)
  qed
  then show ?thesis
    unfolding doTest_interlock_unfold t using again by simp
qed

lemma interlock_released:
  assumes brief: "\<forall>i<j. select_pressed hw (samples w + 1 + 2 * i)
      \<and> millis_at hw (samples w + 2 + 2 * i) - millis_at hw (samples w) < 1000"
    and released: "\<not> select_pressed hw (samples w + 1 + 2 * j)"
    and still: "\<not> select_pressed hw (samples w + 2 + 2 * j)"
  shows "doTest_interlock hw w = Some (w\<lparr>samples := samples w + 3 + 2 * j\<rparr>)"
proof -
  let ?s = "millis_at hw (samples w)"
  let ?w1 = "w\<lparr>samples := samples w + 1\<rparr>"
  have loop: "\<forall>i<j. select_pressed hw (samples ?w1 + 2 * i)
      \<and> millis_at hw (samples ?w1 + 2 * i + 1) - ?s < 1000"
    using brief by (simp add: algebra_simps)
  have stop: "\<not> select_pressed hw (samples ?w1 + 2 * j)"
    using released by simp
  have t: "wait_select_timeout hw ?s ?w1 = Some (w\<lparr>samples := samples w + 2 + 2 * j\<rparr>)"
    using wait_select_timeout_returns(1) [OF loop stop] by (simp add: algebra_simps)
  show ?thesis
    unfolding doTest_interlock_unfold t using still by simp
qed

lemma interlock_late_press:
  assumes "\<not> select_pressed hw (samples w + 1)"
    "\<forall>n. samples w + 2 \<le> n \<and> n < r \<longrightarrow> select_pressed hw n"
    "samples w + 2 < r" "\<not> select_pressed hw r"
  shows "doTest_interlock hw w =
     Some (w\<lparr>samples := r + 1, lcd := lcd w @ [ShowMessage release_message, ShowMessage []]\<rparr>)"
proof -
  let ?s = "millis_at hw (samples w)"
  let ?w1 = "w\<lparr>samples := samples w + 1\<rparr>"
  let ?w2 = "w\<lparr>samples := samples w + 2\<rparr>"
  let ?w3 = "?w2\<lparr>samples := samples ?w2 + 1, lcd := lcd ?w2 @ [ShowMessage release_message]\<rparr>"
  have t: "wait_select_timeout hw ?s ?w1 = Some ?w2"
    using assms(1) by (subst wait_select_timeout_step) simp
  have again: "select_pressed hw (samples ?w2)"
    using assms(2,3) by simp
  have r: "wait_select_released hw ?w3 = Some (?w3\<lparr>samples := r + 1\<rparr>)"
  proof (rule wait_select_released_returns)
    show "samples ?w3 \<le> r"
      using assms(3) by simp
    show "\<forall>n. samples ?w3 \<le> n \<and> n < r \<longrightarrow> select_pressed hw n"
      using assms(2) by simp
    show "\<not> select_pressed hw r"
      by (rule assms(4))
  qed
  show ?thesis
    unfolding doTest_interlock_unfold t option.case r using again by simp
qed

lemma interlock_Some:
  assumes "doTest_interlock hw w = Some w'"
  shows "\<not> select_pressed hw (samples w' - 1) \<and> samples w + 3 \<le> samples w'
       \<and> testCnt w' = testCnt w \<and> test_results w' = test_results w \<and> serial w' = serial w
       \<and> (lcd w' = lcd w
           \<or> lcd w' = lcd w @ [ShowMessage release_message, ShowMessage []]
             \<and> (\<exists>t. samples w < t \<and> t < samples w' - 1
                   \<and> (\<forall>n. t \<le> n \<and> n < samples w' - 1 \<longrightarrow> select_pressed hw n)))"
proof -
  let ?w1 = "w\<lparr>samples := samples w + 1\<rparr>"
  obtain w2 where t: "wait_select_timeout hw (millis_at hw (samples w)) ?w1 = Some w2"
    using assms unfolding doTest_interlock_unfold by (auto split: option.splits)
  define n2 where "n2 = samples w2"
  from wait_select_timeout_Some [OF t]
  have w2: "w2 = w\<lparr>samples := n2\<rparr>" and s2: "samples w + 1 < n2"
    unfolding n2_def by simp_all
  show ?thesis
  proof (cases "select_pressed hw n2")
    case False
    with assms have "w' = w\<lparr>samples := n2 + 1\<rparr>"
      unfolding doTest_interlock_unfold t w2 by simp
    with False s2 show ?thesis
      by simp
  next
    case True
    let ?w3 = "w\<lparr>samples := n2 + 1, lcd := lcd w @ [ShowMessage release_message]\<rparr>"
    obtain w4 where r: "wait_select_released hw ?w3 = Some w4"
      and w': "w' = w4\<lparr>lcd := lcd w4 @ [ShowMessage []]\<rparr>"
      using assms True unfolding doTest_interlock_unfold t w2 by (auto split: option.splits)
    define n4 where "n4 = samples w4"
    from wait_select_released_Some [OF r]
    have w4: "w4 = w\<lparr>lcd := lcd w @ [ShowMessage release_message], samples := n4\<rparr>"
      and s4: "n2 + 1 < n4"
      and rel: "\<not> select_pressed hw (n4 - 1)"
      and held: "\<forall>n. n2 + 1 \<le> n \<and> n < n4 - 1 \<longrightarrow> select_pressed hw n"
      unfolding n4_def by simp_all
    have eq: "w' = w\<lparr>samples := n4,
        lcd := lcd w @ [ShowMessage release_message, ShowMessage []]\<rparr>"
      unfolding w' w4 by simp
    have "\<forall>n. n2 \<le> n \<and> n < n4 - 1 \<longrightarrow> select_pressed hw n"
    proof (intro allI impI)
      fix n assume "n2 \<le> n \<and> n < n4 - 1"
      then show "select_pressed hw n"
        using True held by (cases "n = n2") simp_all
    qed
    then have "\<exists>t. samples w < t \<and> t < n4 - 1
        \<and> (\<forall>n. t \<le> n \<and> n < n4 - 1 \<longrightarrow> select_pressed hw n)"
      using s2 s4 by (intro exI [of _ n2]) simp
    then show ?thesis
      using rel s2 s4 unfolding eq by simp
  qed
qed

lemma elapsed_step:
  fixes c c' s :: u32
  assumes "c' = c \<or> c' = c + 1" "unat (c - s) < 1500"
  shows "unat (c' - s) = unat (c - s) \<or> unat (c' - s) = Suc (unat (c - s))"
proof -
  have one: "unat (c - s + 1) = Suc (unat (c - s))"
    using assms(2) by (simp add: unat_add_lem [THEN iffD1])
  have eq: "c + 1 - s = c - s + 1"
    by simp
  from assms(1) show ?thesis
  proof
    assume "c' = c"
    then show ?thesis by simp
  next
    assume "c' = c + 1"
    then have "unat (c' - s) = Suc (unat (c - s))"
      by (simp only: eq one)
    then show ?thesis by simp
  qed
qed

text \<open>
  A clock that advances by at most one millisecond from one sample to the next, read
  relative to sample \<open>t\<close>, up to the first sample \<open>r\<close> at which 1500 ms have
  elapsed.
\<close>

lemma elapsed_bounded_growth:
  fixes clock :: "nat \<Rightarrow> u32"
  assumes step: "\<forall>n. clock (Suc n) = clock n \<or> clock (Suc n) = clock n + 1"
    and below: "\<forall>n. t \<le> n \<and> n < r \<longrightarrow> unat (clock n - clock t) < 1500"
    and "t \<le> m" "m + k \<le> r"
  shows "unat (clock m - clock t) \<le> unat (clock (m + k) - clock t)
       \<and> unat (clock (m + k) - clock t) \<le> unat (clock m - clock t) + k"
  using assms(4)
proof (induction k)
  case 0
  show ?case by simp
next
  case (Suc k)
  then have ih: "unat (clock m - clock t) \<le> unat (clock (m + k) - clock t)"
    "unat (clock (m + k) - clock t) \<le> unat (clock m - clock t) + k"
    by simp_all
  have "t \<le> m + k \<and> m + k < r"
    using assms(3) Suc.prems by simp
  then have "unat (clock (m + k) - clock t) < 1500"
    using below by blast
  from elapsed_step [OF step [rule_format, of "m + k"] this]
  have "unat (clock (Suc (m + k)) - clock t) = unat (clock (m + k) - clock t)
      \<or> unat (clock (Suc (m + k)) - clock t) = Suc (unat (clock (m + k) - clock t))" .
  then show ?case
    using ih by auto
qed

lemma interlock_hold_1500:
  assumes step: "\<forall>n. millis_at hw (Suc n) = millis_at hw n \<or> millis_at hw (Suc n) = millis_at hw n + 1"
    and press: "\<forall>n. samples w \<le> n \<longrightarrow>
        select_pressed hw n = (millis_at hw n - millis_at hw (samples w) < 1500)"
    and advance: "\<exists>n. samples w \<le> n \<and> \<not> millis_at hw n - millis_at hw (samples w) < 1500"
  shows "\<exists>r. doTest_interlock hw w =
           Some (w\<lparr>samples := r + 1,
                  lcd := lcd w @ [ShowMessage release_message, ShowMessage []]\<rparr>)
       \<and> samples w < r \<and> \<not> select_pressed hw r
       \<and> (\<forall>n. samples w \<le> n \<and> n < r \<longrightarrow> select_pressed hw n)"
proof -
  define t where "t = samples w"
  define e where "e n = unat (millis_at hw n - millis_at hw t)" for n
  have e_less: "(millis_at hw n - millis_at hw t < 1500) = (e n < 1500)"
    "(millis_at hw n - millis_at hw t < 1000) = (e n < 1000)" for n
    by (simp_all add: e_def word_less_nat_alt)
  have e0: "e t = 0"
    by (simp add: e_def)
  define r where "r = (LEAST n. t \<le> n \<and> \<not> e n < 1500)"
  have ex_r: "\<exists>n. t \<le> n \<and> \<not> e n < 1500"
    using advance unfolding t_def [symmetric] e_less .
  have r: "t \<le> r" "\<not> e r < 1500"
    using LeastI_ex [OF ex_r] unfolding r_def by simp_all
  have below: "\<forall>n. t \<le> n \<and> n < r \<longrightarrow> e n < 1500"
    using not_less_Least [of _ "\<lambda>n. t \<le> n \<and> \<not> e n < 1500"] unfolding r_def by blast
  have below': "\<forall>n. t \<le> n \<and> n < r \<longrightarrow> unat (millis_at hw n - millis_at hw t) < 1500"
    using below unfolding e_def .
  have growth: "e m \<le> e (m + k) \<and> e (m + k) \<le> e m + k" if "t \<le> m" "m + k \<le> r" for m k
    unfolding e_def by (rule elapsed_bounded_growth [OF step below' that])
  define n1 where "n1 = (LEAST n. t \<le> n \<and> \<not> e n < 1000)"
  have ex_n1: "\<exists>n. t \<le> n \<and> \<not> e n < 1000"
    using r by (intro exI [of _ r]) simp
  have n1: "t \<le> n1" "\<not> e n1 < 1000"
    using LeastI_ex [OF ex_n1] unfolding n1_def by simp_all
  have before: "\<forall>n. t \<le> n \<and> n < n1 \<longrightarrow> e n < 1000"
    using not_less_Least [of _ "\<lambda>n. t \<le> n \<and> \<not> e n < 1000"] unfolding n1_def by blast
  have n1_le_r: "n1 \<le> r"
    unfolding n1_def using r by (intro Least_le) simp
  have "e (t + (n1 - t)) \<le> e t + (n1 - t)"
    using growth [of t "n1 - t"] n1(1) n1_le_r by simp
  then have far: "t + 1000 \<le> n1"
    using n1 e0 by simp
  have "e (n1 - 1 + 1) \<le> e (n1 - 1) + 1"
    using growth [of "n1 - 1" 1] far n1_le_r by simp
  moreover have "e (n1 - 1) < 1000"
    using before far by simp
  ultimately have e_n1: "e n1 = 1000"
    using n1(2) far by simp
  have "e (n1 + (r - n1)) \<le> e n1 + (r - n1)"
    using growth [of n1 "r - n1"] n1(1) n1_le_r by simp
  then have room: "n1 + 500 \<le> r"
    using r(2) n1_le_r e_n1 by simp
  define j where "j = (n1 - t - 1) div 2"
  have cj: "t + 2 + 2 * j = n1 \<or> t + 2 + 2 * j = n1 + 1"
    unfolding j_def using far by presburger
  have timing: "\<forall>i<j. millis_at hw (samples w + 2 + 2 * i) - millis_at hw (samples w) < 1000"
  proof (intro allI impI)
    fix i assume "i < j"
    then have "t \<le> t + 2 + 2 * i \<and> t + 2 + 2 * i < n1"
      using cj by presburger
    then have "e (t + 2 + 2 * i) < 1000"
      using before by blast
    then show "millis_at hw (samples w + 2 + 2 * i) - millis_at hw (samples w) < 1000"
      unfolding t_def [symmetric] e_less .
  qed
  have "e n1 \<le> e (n1 + 1)"
    using growth [of n1 1] n1(1) room by simp
  then have "\<not> e (t + 2 + 2 * j) < 1000"
    using cj e_n1 by auto
  then have timeout: "\<not> millis_at hw (samples w + 2 + 2 * j) - millis_at hw (samples w) < 1000"
    unfolding t_def [symmetric] e_less .
  have pressed: "\<forall>n. t \<le> n \<and> n < r \<longrightarrow> select_pressed hw n"
    using press below unfolding t_def [symmetric] e_less by blast
  then have held: "\<forall>n. samples w < n \<and> n < r \<longrightarrow> select_pressed hw n"
    unfolding t_def by simp
  have later: "samples w + 3 + 2 * j < r"
    unfolding t_def [symmetric] using cj room by presburger
  have released: "\<not> select_pressed hw r"
    using press r unfolding t_def [symmetric] e_less by blast
  have "doTest_interlock hw w =
      Some (w\<lparr>samples := r + 1, lcd := lcd w @ [ShowMessage release_message, ShowMessage []]\<rparr>)"
    by (rule interlock_held [OF timing timeout held later released])
  moreover have "samples w < r"
    using later by simp
  ultimately show ?thesis
    using released pressed unfolding t_def by blast
qed

lemma wait_select_released_stuck:
  assumes "\<forall>n\<ge>samples w. select_pressed hw n"
  shows "wait_select_released hw w = None"
proof (rule ccontr)
  assume "wait_select_released hw w \<noteq> None"
  then obtain w' where r: "wait_select_released hw w = Some w'"
    by blast
  from wait_select_released_Some [OF r]
  have "samples w < samples w'" "\<not> select_pressed hw (samples w' - 1)"
    by simp_all
  moreover from this(1) have "samples w \<le> samples w' - 1"
    by simp
  ultimately show False
    using assms by blast
qed

text \<open>
  A button that stays pressed: the timed wait ends at the \<open>j\<close>-th reading of the
  clock, the message is put on the display, and the loop that waits for the release is
  entered with the message displayed and never left.
\<close>

lemma interlock_stuck:
  assumes timing: "\<forall>i<j. millis_at hw (samples w + 2 + 2 * i) - millis_at hw (samples w) < 1000"
    and timeout: "\<not> millis_at hw (samples w + 2 + 2 * j) - millis_at hw (samples w) < 1000"
    and held: "\<forall>n>samples w. select_pressed hw n"
  shows "wait_select_timeout hw (millis_at hw (samples w)) (w\<lparr>samples := samples w + 1\<rparr>) =
           Some (w\<lparr>samples := samples w + 3 + 2 * j\<rparr>)
       \<and> fst (isSelectPressed hw (w\<lparr>samples := samples w + 3 + 2 * j\<rparr>))
       \<and> lcd (showMessage release_message (snd (isSelectPressed hw (w\<lparr>samples := samples w + 3 + 2 * j\<rparr>))))
           = lcd w @ [ShowMessage release_message]
       \<and> wait_select_released hw
           (showMessage release_message (snd (isSelectPressed hw (w\<lparr>samples := samples w + 3 + 2 * j\<rparr>))))
           = None
       \<and> doTest_interlock hw w = None"
proof -
  let ?s = "millis_at hw (samples w)"
  let ?w1 = "w\<lparr>samples := samples w + 1\<rparr>"
  let ?w2 = "w\<lparr>samples := samples w + 3 + 2 * j\<rparr>"
  let ?w3 = "showMessage release_message (snd (isSelectPressed hw ?w2))"
  have loop: "\<forall>i<j. select_pressed hw (samples ?w1 + 2 * i)
      \<and> millis_at hw (samples ?w1 + 2 * i + 1) - ?s < 1000"
    using timing held by (simp add: algebra_simps)
  have last: "select_pressed hw (samples ?w1 + 2 * j)"
    using held by simp
  have expired: "\<not> millis_at hw (samples ?w1 + 2 * j + 1) - ?s < 1000"
    using timeout by (simp add: algebra_simps)
  have t: "wait_select_timeout hw ?s ?w1 = Some ?w2"
    using wait_select_timeout_returns(2) [OF loop last expired] by (simp add: algebra_simps)
  have again: "fst (isSelectPressed hw ?w2)"
    using held by (simp add: isSelectPressed_def)
  have shown: "lcd ?w3 = lcd w @ [ShowMessage release_message]"
    by (simp add: showMessage_def isSelectPressed_def)
  have "\<forall>n\<ge>samples ?w3. select_pressed hw n"
    using held by (simp add: showMessage_def isSelectPressed_def)
  then have blocked: "wait_select_released hw ?w3 = None"
    by (rule wait_select_released_stuck)
  have t': "wait_select_timeout hw ?s (w\<lparr>samples := Suc (samples w)\<rparr>) = Some ?w2"
    using t by simp
  have "doTest_interlock hw w = None"
    using again blocked unfolding doTest_interlock_def millis_def
    by (simp add: t' case_prod_beta)
  with t again shown blocked show ?thesis
    by blast
qed

text \<open>
  The entry check on three traces: a button held for fifteen samples of a clock that
  advances 100 ms per sample, a button that is never pressed, and a button held for
  1500 ms of a clock that advances 1 ms per sample. The message is displayed and cleared
  in the first and the third, and the check returns right after the first sample that
  reads released; nothing is displayed in the second.
\<close>

lemma interlock_examples:
  "doTest_interlock \<lparr>select_pressed = (\<lambda>n. n < 15), millis_at = (\<lambda>n. 100 * of_nat n)\<rparr>
      initial_world =
     Some (initial_world\<lparr>samples := 16, lcd := [ShowMessage release_message, ShowMessage []]\<rparr>)
   \<and> \<not> select_pressed \<lparr>select_pressed = (\<lambda>n. n < 15), millis_at = (\<lambda>n. 100 * of_nat n)\<rparr>
        (samples (initial_world\<lparr>samples := 16,
           lcd := [ShowMessage release_message, ShowMessage []]\<rparr>) - 1)
   \<and> doTest_interlock \<lparr>select_pressed = (\<lambda>n. False), millis_at = (\<lambda>n. of_nat n)\<rparr>
      initial_world = Some (initial_world\<lparr>samples := 3\<rparr>)
   \<and> doTest_interlock
       \<lparr>select_pressed = (\<lambda>n. (of_nat n :: u32) < 1500), millis_at = (\<lambda>n. of_nat n)\<rparr>
       initial_world =
     Some (initial_world\<lparr>samples := 1501,
             lcd := [ShowMessage release_message, ShowMessage []]\<rparr>)"
proof -
  let ?fine = "\<lparr>select_pressed = (\<lambda>n. (of_nat n :: u32) < 1500), millis_at = (\<lambda>n. of_nat n :: u32)\<rparr>"
  let ?held = "\<lparr>select_pressed = (\<lambda>n. n < 15), millis_at = (\<lambda>n. 100 * of_nat n :: u32)\<rparr>"
  let ?idle = "\<lparr>select_pressed = (\<lambda>n. False), millis_at = (\<lambda>n. of_nat n :: u32)\<rparr>"
  let ?w' = "initial_world\<lparr>samples := 16, lcd := [ShowMessage release_message, ShowMessage []]\<rparr>"
  have s0: "samples initial_world = 0" "lcd initial_world = []"
    by (simp_all add: initial_world_def)
  have timing: "\<forall>i<4. millis_at ?held (samples initial_world + 2 + 2 * i)
      - millis_at ?held (samples initial_world) < 1000"
  proof (intro allI impI)
    fix i :: nat
    assume "i < 4"
    then consider "i = 0" | "i = 1" | "i = 2" | "i = 3"
      by linarith
    then show "millis_at ?held (samples initial_world + 2 + 2 * i)
        - millis_at ?held (samples initial_world) < 1000"
      by cases (simp_all add: s0)
  qed
  have held: "doTest_interlock ?held initial_world = Some ?w'"
    using interlock_held [of 4 ?held initial_world 15] timing
    by (simp add: s0)
  have rel: "\<not> select_pressed ?held (samples ?w' - 1)"
    by simp
  have idle: "doTest_interlock ?idle initial_world = Some (initial_world\<lparr>samples := 3\<rparr>)"
    using interlock_released [of 0 ?idle initial_world]
    by (simp add: s0)
  have small: "unat (of_nat n :: u32) = n" if "n \<le> 1500" for n
    using that by (intro le_unat_uoi [of _ "1500 :: u32"]) simp
  have "(\<forall>n. millis_at ?fine (Suc n) = millis_at ?fine n
          \<or> millis_at ?fine (Suc n) = millis_at ?fine n + 1)
      \<and> (\<forall>n. samples initial_world \<le> n \<longrightarrow>
            select_pressed ?fine n
              = (millis_at ?fine n - millis_at ?fine (samples initial_world) < 1500))
      \<and> (\<exists>n. samples initial_world \<le> n
            \<and> \<not> millis_at ?fine n - millis_at ?fine (samples initial_world) < 1500)"
    by (auto simp: s0 intro!: exI [of _ 1500])
  then have "\<exists>r. doTest_interlock ?fine initial_world =
        Some (initial_world\<lparr>samples := r + 1,
               lcd := lcd initial_world @ [ShowMessage release_message, ShowMessage []]\<rparr>)
      \<and> samples initial_world < r \<and> \<not> select_pressed ?fine r
      \<and> (\<forall>n. samples initial_world \<le> n \<and> n < r \<longrightarrow> select_pressed ?fine n)"
    by (elim conjE, intro interlock_hold_1500) assumption+
  then obtain r where r: "doTest_interlock ?fine initial_world =
        Some (initial_world\<lparr>samples := r + 1,
               lcd := lcd initial_world @ [ShowMessage release_message, ShowMessage []]\<rparr>)"
      "\<not> select_pressed ?fine r"
      "\<forall>n. samples initial_world \<le> n \<and> n < r \<longrightarrow> select_pressed ?fine n"
    by blast
  have "r = 1500"
  proof (rule ccontr)
    assume "r \<noteq> 1500"
    then consider "r < 1500" | "1500 < r"
      by linarith
    then show False
    proof cases
      case 1
      then have "unat (of_nat r :: u32) < 1500"
        using small [of r] by simp
      with r(2) show False
        by (simp add: word_less_nat_alt)
    next
      case 2
      with r(3) [rule_format, of 1500] have "select_pressed ?fine 1500"
        by (simp add: s0)
      then show False
        by simp
    qed
  qed
  with r(1) have fine: "doTest_interlock ?fine initial_world =
      Some (initial_world\<lparr>samples := 1501,
              lcd := [ShowMessage release_message, ShowMessage []]\<rparr>)"
    by (simp add: s0)
  show ?thesis
    by (intro conjI held rel idle fine)
qed

text \<open>
  C8. The claim asks the entry check of \<open>doTest\<close> to proceed without showing any
  message when the button is held less than 1000 ms, and the comment that opens the check
  says the same: "if pressed for longer than 1 second, show message". The check measures
  no duration after its timed wait: it samples the button once more and displays the
  message on that sample alone. In the trace below the clock advances one millisecond
  per sample; the button reads released at the first sample of the timed wait (sample 1),
  which ends the wait at once, pressed at the next three samples and released at sample 5.
  The press lasted less than 4 ms, and the entry check has displayed the release message
  and cleared it.
\<close>

theorem doTest_interlock_brief_press:
  "doTest_interlock \<lparr>select_pressed = (\<lambda>n. 2 \<le> n \<and> n < 5), millis_at = (\<lambda>n. of_nat n)\<rparr>
      initial_world =
     Some (initial_world\<lparr>samples := 6, lcd := [ShowMessage release_message, ShowMessage []]\<rparr>)
   \<and> lcd initial_world = []
   \<and> \<not> select_pressed \<lparr>select_pressed = (\<lambda>n. 2 \<le> n \<and> n < 5), millis_at = (\<lambda>n. of_nat n :: u32)\<rparr> 1
   \<and> \<not> select_pressed \<lparr>select_pressed = (\<lambda>n. 2 \<le> n \<and> n < 5), millis_at = (\<lambda>n. of_nat n :: u32)\<rparr> 5
   \<and> millis_at \<lparr>select_pressed = (\<lambda>n. 2 \<le> n \<and> n < 5), millis_at = (\<lambda>n. of_nat n :: u32)\<rparr> 5
       - millis_at \<lparr>select_pressed = (\<lambda>n. 2 \<le> n \<and> n < 5), millis_at = (\<lambda>n. of_nat n :: u32)\<rparr> 1
       = 4"
proof -
  let ?hw = "\<lparr>select_pressed = (\<lambda>n. 2 \<le> n \<and> n < 5), millis_at = (\<lambda>n. of_nat n :: u32)\<rparr>"
  have "doTest_interlock ?hw initial_world =
     Some (initial_world\<lparr>samples := 5 + 1,
       lcd := lcd initial_world @ [ShowMessage release_message, ShowMessage []]\<rparr>)"
    by (rule interlock_late_press) (simp_all add: initial_world_def)
  then show ?thesis
    by (simp add: initial_world_def)
qed

subsection \<open>The result buffer\<close>

lemma doTest_Inr:
  assumes "doTest hw what testFunc w = Some (Inr (result, w'))"
  shows "result = (testFunc ())\<lparr>device := what\<rparr>
       \<and> 0 \<le> testCnt w \<and> testCnt w < int (length (test_results w))
       \<and> testCnt w' = testCnt w + 1
       \<and> test_results w' = (test_results w)[nat (testCnt w) := result]"
proof -
  obtain w1 where g: "doTest_interlock hw w = Some w1"
    using assms by (auto simp: doTest_def split: option.splits)
  from interlock_Some [OF g]
  have frame: "testCnt w1 = testCnt w" "test_results w1 = test_results w"
    by simp_all
  show ?thesis
    using assms frame unfolding doTest_def g option.case
    by (auto simp: Let_def Serial_print_def Serial_println_def showMessage_def showStatus_def
        split: if_splits)
qed

lemma doTest_not_overrun:
  assumes "0 \<le> testCnt w" "testCnt w < int (length (test_results w))"
  shows "doTest hw what testFunc w \<noteq> Some (Inl e)"
proof (cases "doTest_interlock hw w")
  case None
  then show ?thesis
    by (simp add: doTest_def)
next
  case (Some w1)
  from interlock_Some [OF Some]
  have frame: "testCnt w1 = testCnt w" "test_results w1 = test_results w"
    by simp_all
  show ?thesis
    using assms frame unfolding doTest_def Some option.case
    by (simp add: Let_def Serial_print_def Serial_println_def showMessage_def showStatus_def)
qed

lemma doTest_idle:
  assumes "\<forall>n. \<not> select_pressed hw n"
  shows "doTest hw what testFunc w \<noteq> None"
proof -
  have "doTest_interlock hw w = Some (w\<lparr>samples := samples w + 3 + 2 * 0\<rparr>)"
    using assms by (intro interlock_released) simp_all
  then show ?thesis
    by (simp add: doTest_def Let_def)
qed

lemma run_tests_results:
  assumes "0 \<le> testCnt w" "testCnt w + int (length ts) \<le> int (length (test_results w))"
    "run_tests hw tests ts w = Some res"
  shows "\<exists>w'. res = Inr w' \<and> testCnt w' = testCnt w + int (length ts)
       \<and> length (test_results w') = length (test_results w)
       \<and> (\<forall>i < length ts. test_results w' ! (nat (testCnt w) + i) =
             (tests (snd (ts ! i)) ())\<lparr>device := fst (ts ! i)\<rparr>)
       \<and> (\<forall>k < nat (testCnt w). test_results w' ! k = test_results w ! k)"
  using assms
proof (induction ts arbitrary: w)
  case Nil
  then show ?case by auto
next
  case (Cons t ts)
  obtain what testFunc where t: "t = (what, testFunc)"
    by (cases t)
  have room: "testCnt w < int (length (test_results w))"
    using Cons.prems(2) by simp
  from Cons.prems(3) obtain out where out: "doTest hw what (tests testFunc) w = Some out"
    unfolding t by (auto split: option.splits)
  then obtain result w1 where ok: "out = Inr (result, w1)"
    using doTest_not_overrun [OF Cons.prems(1) room, of hw what "tests testFunc"]
    by (cases out) auto
  from doTest_Inr [OF out [unfolded ok]]
  have step: "result = (tests testFunc ())\<lparr>device := what\<rparr>" "testCnt w1 = testCnt w + 1"
    "test_results w1 = (test_results w)[nat (testCnt w) := result]"
    by simp_all
  have rest: "run_tests hw tests ts w1 = Some res"
    using Cons.prems(3) unfolding t by (simp add: out ok)
  have "\<exists>w'. res = Inr w' \<and> testCnt w' = testCnt w1 + int (length ts)
       \<and> length (test_results w') = length (test_results w1)
       \<and> (\<forall>i < length ts. test_results w' ! (nat (testCnt w1) + i) =
             (tests (snd (ts ! i)) ())\<lparr>device := fst (ts ! i)\<rparr>)
       \<and> (\<forall>k < nat (testCnt w1). test_results w' ! k = test_results w1 ! k)"
    using Cons.prems step by (intro Cons.IH [OF _ _ rest]) simp_all
  then obtain w' where w': "res = Inr w'" "testCnt w' = testCnt w1 + int (length ts)"
    "length (test_results w') = length (test_results w1)"
    "\<forall>i < length ts. test_results w' ! (nat (testCnt w1) + i) =
       (tests (snd (ts ! i)) ())\<lparr>device := fst (ts ! i)\<rparr>"
    "\<forall>k < nat (testCnt w1). test_results w' ! k = test_results w1 ! k"
    by blast
  have n1: "nat (testCnt w1) = Suc (nat (testCnt w))"
    using step(2) Cons.prems(1) by simp
  have slots: "\<forall>i < length (t # ts). test_results w' ! (nat (testCnt w) + i) =
      (tests (snd ((t # ts) ! i)) ())\<lparr>device := fst ((t # ts) ! i)\<rparr>"
  proof (intro allI impI)
    fix i assume i: "i < length (t # ts)"
    show "test_results w' ! (nat (testCnt w) + i) =
        (tests (snd ((t # ts) ! i)) ())\<lparr>device := fst ((t # ts) ! i)\<rparr>"
    proof (cases i)
      case 0
      have "test_results w' ! nat (testCnt w) = test_results w1 ! nat (testCnt w)"
        using w'(5) n1 by simp
      also have "\<dots> = result"
        using step(3) room Cons.prems(1) by simp
      finally show ?thesis
        using 0 step(1) t by simp
    next
      case (Suc i')
      with i w'(4) n1 show ?thesis
        by simp
    qed
  qed
  have old: "\<forall>k < nat (testCnt w). test_results w' ! k = test_results w ! k"
    using w'(5) n1 step(3) by simp
  show ?case
    using w'(1,2,3) step(2,3) slots old by simp
qed

lemma run_tests_idle:
  assumes "\<forall>n. \<not> select_pressed hw n"
    "0 \<le> testCnt w" "testCnt w + int (length ts) \<le> int (length (test_results w))"
  shows "run_tests hw tests ts w \<noteq> None"
  using assms(2,3)
proof (induction ts arbitrary: w)
  case Nil
  show ?case by simp
next
  case (Cons t ts)
  obtain what testFunc where t: "t = (what, testFunc)"
    by (cases t)
  have room: "testCnt w < int (length (test_results w))"
    using Cons.prems(2) by simp
  obtain out where out: "doTest hw what (tests testFunc) w = Some out"
    using doTest_idle [OF assms(1), of what "tests testFunc" w] by auto
  then obtain result w1 where ok: "out = Inr (result, w1)"
    using doTest_not_overrun [OF Cons.prems(1) room, of hw what "tests testFunc"]
    by (cases out) auto
  from doTest_Inr [OF out [unfolded ok]]
  have step: "testCnt w1 = testCnt w + 1"
    "test_results w1 = (test_results w)[nat (testCnt w) := result]"
    by simp_all
  have "run_tests hw tests ts w1 \<noteq> None"
    using Cons.prems step by (intro Cons.IH) simp_all
  then show ?case
    unfolding t by (simp add: out ok)
qed

text \<open>
  C6, as stated, fails on the capacity: the buffer is declared with 15 slots
  ("a test result buffer of sufficient size"), the run registers 13 tests.
\<close>

theorem test_results_capacity_counterexample:
  "length (test_results initial_world) = 15 \<and> length registered_tests = 13
   \<and> length (test_results initial_world) \<noteq> length registered_tests"
  by (simp add: initial_world_def registered_tests_def)

text \<open>
  C6, amended. The result buffer has 15 slots, at least the 13 registered tests. A
  \<open>doTest\<close> call that returns has stored its result at slot \<open>testCnt\<close>, left
  every other slot as it was and advanced \<open>testCnt\<close> by one. A run of the 13
  registered tests from the start-up state that returns has not overrun the buffer: it
  ends with \<open>testCnt = 13\<close>, and slot \<open>i\<close> still holds the result of the
  \<open>i\<close>-th test as it was stored.
\<close>

theorem test_results_buffer:
  "length (test_results initial_world) = 15 \<and> length registered_tests = 13
   \<and> (doTest hw what testFunc w = Some (Inr (result, w'))
      \<longrightarrow> 0 \<le> testCnt w \<and> testCnt w < int (length (test_results w))
          \<and> testCnt w' = testCnt w + 1
          \<and> test_results w' = (test_results w)[nat (testCnt w) := result])
   \<and> (setup_tests hw tests initial_world = Some res
      \<longrightarrow> (\<exists>w1. res = Inr w1 \<and> testCnt w1 = 13 \<and> length (test_results w1) = 15
             \<and> (\<forall>i<13. test_results w1 ! i =
                   (tests (snd (registered_tests ! i)) ())\<lparr>device := fst (registered_tests ! i)\<rparr>)))"
proof (intro conjI impI)
  show "length (test_results initial_world) = 15" "length registered_tests = 13"
    by (simp_all add: initial_world_def registered_tests_def)
next
  assume d: "doTest hw what testFunc w = Some (Inr (result, w'))"
  note step = doTest_Inr [OF d]
  show "0 \<le> testCnt w" "testCnt w < int (length (test_results w))"
    "testCnt w' = testCnt w + 1"
    "test_results w' = (test_results w)[nat (testCnt w) := result]"
    using step by blast+
next
  assume run: "setup_tests hw tests initial_world = Some res"
  have len: "length registered_tests = 13"
    by (simp add: registered_tests_def)
  have init: "testCnt initial_world = 0" "length (test_results initial_world) = 15"
    by (simp_all add: initial_world_def)
  have "\<exists>w'. res = Inr w' \<and> testCnt w' = testCnt initial_world + int (length registered_tests)
       \<and> length (test_results w') = length (test_results initial_world)
       \<and> (\<forall>i < length registered_tests. test_results w' ! (nat (testCnt initial_world) + i) =
             (tests (snd (registered_tests ! i)) ())\<lparr>device := fst (registered_tests ! i)\<rparr>)
       \<and> (\<forall>k < nat (testCnt initial_world). test_results w' ! k = test_results initial_world ! k)"
    using run unfolding setup_tests_def
    by (intro run_tests_results) (simp_all add: init len)
  then show "\<exists>w1. res = Inr w1 \<and> testCnt w1 = 13 \<and> length (test_results w1) = 15
      \<and> (\<forall>i<13. test_results w1 ! i =
            (tests (snd (registered_tests ! i)) ())\<lparr>device := fst (registered_tests ! i)\<rparr>)"
    unfolding init len by simp
qed

theorem test_results_buffer_witness:
  "\<exists>w1. setup_tests \<lparr>select_pressed = (\<lambda>n. False), millis_at = (\<lambda>n. of_nat n)\<rparr>
           (\<lambda>p u. \<lparr>device = [], success = (p \<noteq> testFlash), status = ''done''\<rparr>)
           initial_world = Some (Inr w1)
       \<and> testCnt w1 = 13 \<and> length (test_results w1) = 15
       \<and> test_results w1 ! 2 = \<lparr>device = ''Flash'', success = False, status = ''done''\<rparr>
       \<and> test_results w1 ! 12 = \<lparr>device = ''SIM908'', success = True, status = ''done''\<rparr>"
proof -
  let ?hw = "\<lparr>select_pressed = (\<lambda>n. False), millis_at = (\<lambda>n. of_nat n :: u32)\<rparr>"
  let ?tests = "\<lambda>p (u :: unit). \<lparr>device = [], success = (p \<noteq> testFlash), status = ''done''\<rparr>"
  have idle: "\<forall>n. \<not> select_pressed ?hw n"
    by simp
  have "run_tests ?hw ?tests registered_tests initial_world \<noteq> None"
    by (rule run_tests_idle [OF idle]) (simp_all add: initial_world_def registered_tests_def)
  then obtain res where res: "setup_tests ?hw ?tests initial_world = Some res"
    unfolding setup_tests_def by auto
  from test_results_buffer [where hw = ?hw and tests = ?tests and res = res, THEN conjunct2, THEN conjunct2,
      THEN conjunct2] res
  obtain w1 where w1: "res = Inr w1" "testCnt w1 = 13" "length (test_results w1) = 15"
    "\<forall>i<13. test_results w1 ! i =
       (?tests (snd (registered_tests ! i)) ())\<lparr>device := fst (registered_tests ! i)\<rparr>"
    by blast
  have "test_results w1 ! 2 = \<lparr>device = ''Flash'', success = False, status = ''done''\<rparr>"
    using w1(4) [rule_format, of 2] by (simp add: registered_tests_def)
  moreover have "test_results w1 ! 12 = \<lparr>device = ''SIM908'', success = True, status = ''done''\<rparr>"
    using w1(4) [rule_format, of 12] by (simp add: registered_tests_def)
  ultimately show ?thesis
    using res w1(1,2,3) by auto
qed

subsection \<open>What doTest returns\<close>

lemma wait_select_timeout_total:
  assumes "\<forall>n\<ge>r. \<not> select_pressed hw n"
  shows "\<exists>w'. wait_select_timeout hw sel_start w = Some w'"
proof (induction "r - samples w" arbitrary: w rule: less_induct)
  case less
  show ?case
  proof (cases "select_pressed hw (samples w) \<and> millis_at hw (samples w + 1) - sel_start < 1000")
    case False
    then show ?thesis
      by (subst wait_select_timeout_step) auto
  next
    case True
    then have "samples w < r"
      using assms by (meson not_le_imp_less)
    then have "r - samples (w\<lparr>samples := samples w + 2\<rparr>) < r - samples w"
      by simp
    from less [OF this] show ?thesis
      using True by (subst wait_select_timeout_step) simp
  qed
qed

lemma wait_select_released_total:
  assumes "\<forall>n\<ge>r. \<not> select_pressed hw n"
  shows "\<exists>w'. wait_select_released hw w = Some w'"
proof (induction "r - samples w" arbitrary: w rule: less_induct)
  case less
  show ?case
  proof (cases "select_pressed hw (samples w)")
    case False
    then show ?thesis
      by (subst wait_select_released_step) simp
  next
    case True
    then have "samples w < r"
      using assms by (meson not_le_imp_less)
    then have "r - samples (w\<lparr>samples := samples w + 1\<rparr>) < r - samples w"
      by simp
    from less [OF this] show ?thesis
      using True by (subst wait_select_released_step) simp
  qed
qed

lemma doTest_interlock_total:
  assumes "\<forall>n\<ge>r. \<not> select_pressed hw n"
  shows "\<exists>w'. doTest_interlock hw w = Some w'"
proof -
  obtain w2 where t: "wait_select_timeout hw (millis_at hw (samples w)) (w\<lparr>samples := samples w + 1\<rparr>) = Some w2"
    using wait_select_timeout_total [OF assms] by blast
  show ?thesis
  proof (cases "select_pressed hw (samples w2)")
    case False
    then show ?thesis
      unfolding doTest_interlock_unfold t by simp
  next
    case True
    obtain w4 where "wait_select_released hw
        (w2\<lparr>samples := samples w2 + 1, lcd := lcd w2 @ [ShowMessage release_message]\<rparr>) = Some w4"
      using wait_select_released_total [OF assms] by blast
    then show ?thesis
      unfolding doTest_interlock_unfold t using True by simp
  qed
qed

lemma doTest_total:
  assumes "\<forall>n\<ge>r. \<not> select_pressed hw n"
    and "0 \<le> testCnt w" "testCnt w < int (length (test_results w))"
  shows "\<exists>w'. doTest hw what testFunc w = Some (Inr ((testFunc ())\<lparr>device := what\<rparr>, w'))
       \<and> test_results w' ! nat (testCnt w) = (testFunc ())\<lparr>device := what\<rparr>
       \<and> testCnt w' = testCnt w + 1"
proof -
  obtain w1 where g: "doTest_interlock hw w = Some w1"
    using doTest_interlock_total [OF assms(1)] by blast
  have "doTest hw what testFunc w \<noteq> None"
    unfolding doTest_def g option.case by (simp add: Let_def)
  then obtain out where out: "doTest hw what testFunc w = Some out"
    by blast
  then obtain result w' where ok: "out = Inr (result, w')"
    using doTest_not_overrun [OF assms(2,3), of hw what testFunc]
    by (cases out) auto
  note step = doTest_Inr [OF out [unfolded ok]]
  have "nat (testCnt w) < length (test_results w)"
    using assms(2,3) by linarith
  then have "test_results w' ! nat (testCnt w) = result"
    using step by simp
  then show ?thesis
    using step out ok by simp
qed

text \<open>
  C7. For every probe and every result it returns: whenever the SELECT button stays
  released from some sample on and \<open>testCnt\<close> is inside the buffer,
  \<open>doTest\<close> returns, and the result it returns and the result it has stored at
  slot \<open>testCnt\<close> are the probe's result with the caller's name as device: the
  device is the caller's name, whatever name the probe wrote, and success and status are
  the probe's. The same holds of every call of \<open>doTest\<close> that returns a result,
  on any trace.
\<close>

theorem doTest_overwrites_device:
  "((\<forall>n\<ge>r. \<not> select_pressed hw n)
      \<and> 0 \<le> testCnt w \<and> testCnt w < int (length (test_results w))
    \<longrightarrow> (\<exists>w'. doTest hw what testFunc w = Some (Inr ((testFunc ())\<lparr>device := what\<rparr>, w'))
             \<and> test_results w' ! nat (testCnt w) = (testFunc ())\<lparr>device := what\<rparr>))
   \<and> device ((testFunc ())\<lparr>device := what\<rparr>) = what
   \<and> success ((testFunc ())\<lparr>device := what\<rparr>) = success (testFunc ())
   \<and> status ((testFunc ())\<lparr>device := what\<rparr>) = status (testFunc ())
   \<and> (doTest hw what testFunc w = Some (Inr (result, w'))
    \<longrightarrow> device result = what \<and> success result = success (testFunc ())
        \<and> status result = status (testFunc ())
        \<and> test_results w' ! nat (testCnt w) = result)"
proof (intro conjI impI)
  assume "(\<forall>n\<ge>r. \<not> select_pressed hw n)
      \<and> 0 \<le> testCnt w \<and> testCnt w < int (length (test_results w))"
  then have "\<exists>w'. doTest hw what testFunc w = Some (Inr ((testFunc ())\<lparr>device := what\<rparr>, w'))
       \<and> test_results w' ! nat (testCnt w) = (testFunc ())\<lparr>device := what\<rparr>
       \<and> testCnt w' = testCnt w + 1"
    by (elim conjE, intro doTest_total [where r = r]) assumption+
  then show "\<exists>w'. doTest hw what testFunc w = Some (Inr ((testFunc ())\<lparr>device := what\<rparr>, w'))
       \<and> test_results w' ! nat (testCnt w) = (testFunc ())\<lparr>device := what\<rparr>"
    by blast
next
  show "device ((testFunc ())\<lparr>device := what\<rparr>) = what"
    "success ((testFunc ())\<lparr>device := what\<rparr>) = success (testFunc ())"
    "status ((testFunc ())\<lparr>device := what\<rparr>) = status (testFunc ())"
    by simp_all
next
  assume d: "doTest hw what testFunc w = Some (Inr (result, w'))"
  note step = doTest_Inr [OF d]
  have "nat (testCnt w) < length (test_results w)"
    using step by linarith
  then have stored: "test_results w' ! nat (testCnt w) = result"
    using step by simp
  have r: "result = (testFunc ())\<lparr>device := what\<rparr>"
    using step by simp
  show "device result = what" "success result = success (testFunc ())"
    "status result = status (testFunc ())"
    unfolding r by simp_all
  show "test_results w' ! nat (testCnt w) = result"
    by (rule stored)
qed

theorem doTest_overwrites_device_witness:
  "\<exists>w'. doTest \<lparr>select_pressed = (\<lambda>n. n < 4), millis_at = (\<lambda>n. of_nat n)\<rparr> ''Flash''
           (\<lambda>u. \<lparr>device = ''W25Q'', success = False, status = ''no ack''\<rparr>) initial_world =
         Some (Inr (\<lparr>device = ''Flash'', success = False, status = ''no ack''\<rparr>, w'))
       \<and> test_results w' ! 0 = \<lparr>device = ''Flash'', success = False, status = ''no ack''\<rparr>"
proof -
  let ?hw = "\<lparr>select_pressed = (\<lambda>n. n < 4), millis_at = (\<lambda>n. of_nat n :: u32)\<rparr>"
  let ?f = "\<lambda>u :: unit. \<lparr>device = ''W25Q'', success = False, status = ''no ack''\<rparr>"
  have h: "(\<forall>n\<ge>4. \<not> select_pressed ?hw n)
      \<and> 0 \<le> testCnt initial_world
      \<and> testCnt initial_world < int (length (test_results initial_world))"
    by (simp add: initial_world_def)
  have n0: "nat (testCnt initial_world) = 0"
    by (simp add: initial_world_def)
  from doTest_overwrites_device [of 4 ?hw initial_world "''Flash''" ?f, THEN conjunct1] h
  obtain w' where w': "doTest ?hw ''Flash'' ?f initial_world = Some (Inr ((?f ())\<lparr>device := ''Flash''\<rparr>, w'))"
    "test_results w' ! nat (testCnt initial_world) = (?f ())\<lparr>device := ''Flash''\<rparr>"
    by blast
  show ?thesis
    using w' unfolding n0 by (intro exI [of _ w']) simp
qed

end
